theory Spec2Isabelle
  imports Main "HOL-Library.Word" "HOL-Library.Signed_Division"
begin

unbundle bit_operations_syntax

section \<open>The lock-free map of minami14/lfm, single-threaded semantics\<close>

text \<open>
  The sources hold three revisions of one file. \<^verbatim>\<open>map.go\<close> is the first: its
  \<^verbatim>\<open>index\<close> has no case for one shard and its \<^verbatim>\<open>Delete\<close> swaps through
  \<^verbatim>\<open>atomic.Value.CompareAndSwap\<close>. The second revision guards \<^verbatim>\<open>index\<close> for one shard,
  adds \<^verbatim>\<open>LoadAndStore\<close> and rewrites \<^verbatim>\<open>Delete\<close> with \<^verbatim>\<open>atomic.CompareAndSwapPointer\<close>;
  the third makes the value type a type parameter and adds \<^verbatim>\<open>StoreNotExists\<close>.
  The bodies of \<^verbatim>\<open>New\<close>, \<^verbatim>\<open>Store\<close>, \<^verbatim>\<open>Load\<close>, \<^verbatim>\<open>LoadOrStore\<close>, \<^verbatim>\<open>Range\<close> and
  \<^verbatim>\<open>Length\<close> are the same text in all three. Definitions named \<open>mapgo_\<dots>\<close> embed
  \<^verbatim>\<open>map.go\<close>; the unprefixed ones embed the later revisions.

  Every operation is modelled as one uninterrupted call: a compare-and-swap succeeds
  exactly when the cell holds the expected value. A run-time panic of Go is a value of
  type \<open>panic\<close>, returned on the left of a sum.
\<close>

subsection \<open>Data\<close>

text \<open>
  \<^verbatim>\<open>interface{}\<close>: \<open>None\<close> is Go's \<^verbatim>\<open>nil\<close>.
\<close>

type_synonym 'v interface = "'v option"

text \<open>
  An \<^verbatim>\<open>atomic.Value\<close> cell of the structure holds \<^verbatim>\<open>nil\<close> or a pointer to a
  \<^verbatim>\<open>keyValuePair\<close>, whose \<^verbatim>\<open>nextPair\<close> is again such a cell. Each cell is allocated
  by \<^verbatim>\<open>new(atomic.Value)\<close> for one owner (a shard slot or one pair), and between calls
  no two reachable owners point to one cell, so a cell is modelled by its contents.
\<close>

datatype 'v Value =
    nil
  | keyValuePair (key: string) (val: "'v interface") (nextPair: "'v Value")

record 'v lfm_map =
  pairs :: "'v Value list"
  length_m :: "64 word"

datatype panic =
    MakeSliceLenOutOfRange
  | DivideByZero
  | IndexOutOfRange
  | NilDereference
  | CompareAndSwapNil
  | CompareAndSwapInconsistentType

subsection \<open>Construction\<close>

text \<open>
  \<^verbatim>\<open>make([]*atomic.Value, size)\<close> panics on a negative length; a length too large for
  the memory of the machine is not modelled. Every slot gets an empty cell and the
  counter starts at 0.
\<close>

definition New :: "int \<Rightarrow> panic + 'v lfm_map" where
  "New n =
     (if n < 0 then Inl MakeSliceLenOutOfRange
      else Inr \<lparr>pairs = replicate (nat n) nil, length_m = 0\<rparr>)"

subsection \<open>Hash router\<close>

text \<open>
  \<^verbatim>\<open>fnv.New64()\<close> is 64-bit FNV-1: starting from the offset basis, each byte multiplies
  the hash by the prime (modulo \<open>2^64\<close>) and is then xor-ed in.
\<close>

definition offset64 :: "64 word" where
  "offset64 = 14695981039346656037"

definition prime64 :: "64 word" where
  "prime64 = 1099511628211"

definition Sum64 :: "string \<Rightarrow> 64 word" where
  "Sum64 s = foldl (\<lambda>h c. (h * prime64) XOR of_char c) offset64 s"

text \<open>
  \<^verbatim>\<open>int(h.Sum64()&((1<<63)-1))\<close>, with Go's \<^verbatim>\<open>int\<close> of 64 bits: the conversion keeps the
  bits and reads them as two's complement.
\<close>

definition hash_int :: "string \<Rightarrow> int" where
  "hash_int s = sint (Sum64 s AND (push_bit 63 1 - 1))"

text \<open>
  \<^verbatim>\<open>map.go\<close>: the remainder by \<^verbatim>\<open>len(m.pairs) - 1\<close>. Go's \<^verbatim>\<open>%\<close> truncates (\<open>smod\<close>)
  and panics on a zero divisor.
\<close>

definition mapgo_index :: "'v lfm_map \<Rightarrow> string \<Rightarrow> panic + int" where
  "mapgo_index m k =
     (if int (length (pairs m)) - 1 = 0 then Inl DivideByZero
      else Inr (hash_int k smod (int (length (pairs m)) - 1)))"

text \<open>The later revisions return 0 first when there is one shard.\<close>

definition index :: "'v lfm_map \<Rightarrow> string \<Rightarrow> panic + int" where
  "index m k =
     (if length (pairs m) = 1 then Inr 0
      else if int (length (pairs m)) - 1 = 0 then Inl DivideByZero
      else Inr (hash_int k smod (int (length (pairs m)) - 1)))"

text \<open>\<^verbatim>\<open>m.pairs[i]\<close>: Go panics when the index is out of range.\<close>

definition in_range :: "'v lfm_map \<Rightarrow> int \<Rightarrow> bool" where
  "in_range m i \<longleftrightarrow> 0 \<le> i \<and> i < int (length (pairs m))"

subsection \<open>The traversals\<close>

text \<open>
  The loop of \<^verbatim>\<open>Store\<close> on the cell \<^verbatim>\<open>current\<close>: the new contents of the cell, and
  whether the candidate pair was installed.
\<close>

fun Store_loop :: "'v Value \<Rightarrow> string \<Rightarrow> 'v interface \<Rightarrow> 'v Value \<times> bool" where
  "Store_loop nil k v = (keyValuePair k v nil, True)"
| "Store_loop (keyValuePair pk pv nx) k v =
     (if pk = k then (keyValuePair pk v nx, False)
      else (case Store_loop nx k v of (nx', ins) \<Rightarrow> (keyValuePair pk pv nx', ins)))"

fun Load_loop :: "'v Value \<Rightarrow> string \<Rightarrow> 'v interface \<times> bool" where
  "Load_loop nil k = (None, False)"
| "Load_loop (keyValuePair pk pv nx) k =
     (if pk = k then (pv, True) else Load_loop nx k)"

text \<open>\<^verbatim>\<open>LoadOrStore\<close>: the new cell, the returned value, the returned flag.\<close>

fun LoadOrStore_loop ::
  "'v Value \<Rightarrow> string \<Rightarrow> 'v interface \<Rightarrow> 'v Value \<times> 'v interface \<times> bool" where
  "LoadOrStore_loop nil k v = (keyValuePair k v nil, v, True)"
| "LoadOrStore_loop (keyValuePair pk pv nx) k v =
     (if pk = k then (keyValuePair pk pv nx, pv, False)
      else (case LoadOrStore_loop nx k v of
              (nx', r, ins) \<Rightarrow> (keyValuePair pk pv nx', r, ins)))"

text \<open>
  \<^verbatim>\<open>LoadAndStore\<close>: the new cell, the returned value (\<^verbatim>\<open>nil\<close> after an insertion),
  and whether the candidate pair was installed.
\<close>

fun LoadAndStore_loop ::
  "'v Value \<Rightarrow> string \<Rightarrow> 'v interface \<Rightarrow> 'v Value \<times> 'v interface \<times> bool" where
  "LoadAndStore_loop nil k v = (keyValuePair k v nil, None, True)"
| "LoadAndStore_loop (keyValuePair pk pv nx) k v =
     (if pk = k then (keyValuePair pk v nx, pv, False)
      else (case LoadAndStore_loop nx k v of
              (nx', r, ins) \<Rightarrow> (keyValuePair pk pv nx', r, ins)))"

fun StoreNotExists_loop :: "'v Value \<Rightarrow> string \<Rightarrow> 'v interface \<Rightarrow> 'v Value \<times> bool" where
  "StoreNotExists_loop nil k v = (keyValuePair k v nil, True)"
| "StoreNotExists_loop (keyValuePair pk pv nx) k v =
     (if pk = k then (keyValuePair pk pv nx, False)
      else (case StoreNotExists_loop nx k v of
              (nx', ins) \<Rightarrow> (keyValuePair pk pv nx', ins)))"

subsection \<open>Operations\<close>

text \<open>
  The shard position an operation works on: the result of the router, checked against
  the bounds of \<^verbatim>\<open>m.pairs\<close> as the slice access \<^verbatim>\<open>m.pairs[i]\<close> does.
\<close>

definition shard :: "'v lfm_map \<Rightarrow> panic + int \<Rightarrow> panic + nat" where
  "shard m r =
     (case r of
        Inl e \<Rightarrow> Inl e
      | Inr i \<Rightarrow> if in_range m i then Inr (nat i) else Inl IndexOutOfRange)"

text \<open>
  A fresh insertion adds 1 to the counter (\<^verbatim>\<open>atomic.AddInt64\<close>, which wraps).
\<close>

definition installed :: "'v lfm_map \<Rightarrow> nat \<Rightarrow> 'v Value \<Rightarrow> bool \<Rightarrow> 'v lfm_map" where
  "installed m i c ins =
     m\<lparr>pairs := (pairs m)[i := c],
       length_m := (if ins then length_m m + 1 else length_m m)\<rparr>"

text \<open>The bodies after \<^verbatim>\<open>i := m.index(key)\<close>, shared by the revisions.\<close>

definition Store_at :: "'v lfm_map \<Rightarrow> nat \<Rightarrow> string \<Rightarrow> 'v interface \<Rightarrow> 'v lfm_map" where
  "Store_at m i k v =
     (case Store_loop (pairs m ! i) k v of (c, ins) \<Rightarrow> installed m i c ins)"

definition Load_at :: "'v lfm_map \<Rightarrow> nat \<Rightarrow> string \<Rightarrow> 'v interface \<times> bool" where
  "Load_at m i k = Load_loop (pairs m ! i) k"

definition LoadOrStore_at ::
  "'v lfm_map \<Rightarrow> nat \<Rightarrow> string \<Rightarrow> 'v interface \<Rightarrow> 'v lfm_map \<times> 'v interface \<times> bool" where
  "LoadOrStore_at m i k v =
     (case LoadOrStore_loop (pairs m ! i) k v of
        (c, r, ins) \<Rightarrow> (installed m i c ins, r, ins))"

definition LoadAndStore_at ::
  "'v lfm_map \<Rightarrow> nat \<Rightarrow> string \<Rightarrow> 'v interface \<Rightarrow> 'v lfm_map \<times> 'v interface" where
  "LoadAndStore_at m i k v =
     (case LoadAndStore_loop (pairs m ! i) k v of
        (c, r, ins) \<Rightarrow> (installed m i c ins, r))"

definition StoreNotExists_at ::
  "'v lfm_map \<Rightarrow> nat \<Rightarrow> string \<Rightarrow> 'v interface \<Rightarrow> 'v lfm_map \<times> bool" where
  "StoreNotExists_at m i k v =
     (case StoreNotExists_loop (pairs m ! i) k v of
        (c, ins) \<Rightarrow> (installed m i c ins, ins))"

text \<open>The later revisions (guarded router).\<close>

definition Store :: "'v lfm_map \<Rightarrow> string \<Rightarrow> 'v interface \<Rightarrow> panic + 'v lfm_map" where
  "Store m k v =
     (case shard m (index m k) of Inl e \<Rightarrow> Inl e | Inr i \<Rightarrow> Inr (Store_at m i k v))"

definition Load :: "'v lfm_map \<Rightarrow> string \<Rightarrow> panic + 'v interface \<times> bool" where
  "Load m k =
     (case shard m (index m k) of Inl e \<Rightarrow> Inl e | Inr i \<Rightarrow> Inr (Load_at m i k))"

definition LoadOrStore ::
  "'v lfm_map \<Rightarrow> string \<Rightarrow> 'v interface \<Rightarrow> panic + 'v lfm_map \<times> 'v interface \<times> bool" where
  "LoadOrStore m k v =
     (case shard m (index m k) of Inl e \<Rightarrow> Inl e | Inr i \<Rightarrow> Inr (LoadOrStore_at m i k v))"

definition LoadAndStore ::
  "'v lfm_map \<Rightarrow> string \<Rightarrow> 'v interface \<Rightarrow> panic + 'v lfm_map \<times> 'v interface" where
  "LoadAndStore m k v =
     (case shard m (index m k) of Inl e \<Rightarrow> Inl e | Inr i \<Rightarrow> Inr (LoadAndStore_at m i k v))"

definition StoreNotExists ::
  "'v lfm_map \<Rightarrow> string \<Rightarrow> 'v interface \<Rightarrow> panic + 'v lfm_map \<times> bool" where
  "StoreNotExists m k v =
     (case shard m (index m k) of Inl e \<Rightarrow> Inl e | Inr i \<Rightarrow> Inr (StoreNotExists_at m i k v))"

text \<open>\<^verbatim>\<open>map.go\<close> (unguarded router).\<close>

definition mapgo_Store :: "'v lfm_map \<Rightarrow> string \<Rightarrow> 'v interface \<Rightarrow> panic + 'v lfm_map" where
  "mapgo_Store m k v =
     (case shard m (mapgo_index m k) of Inl e \<Rightarrow> Inl e | Inr i \<Rightarrow> Inr (Store_at m i k v))"

definition mapgo_Load :: "'v lfm_map \<Rightarrow> string \<Rightarrow> panic + 'v interface \<times> bool" where
  "mapgo_Load m k =
     (case shard m (mapgo_index m k) of Inl e \<Rightarrow> Inl e | Inr i \<Rightarrow> Inr (Load_at m i k))"

definition mapgo_LoadOrStore ::
  "'v lfm_map \<Rightarrow> string \<Rightarrow> 'v interface \<Rightarrow> panic + 'v lfm_map \<times> 'v interface \<times> bool" where
  "mapgo_LoadOrStore m k v =
     (case shard m (mapgo_index m k) of
        Inl e \<Rightarrow> Inl e
      | Inr i \<Rightarrow> Inr (LoadOrStore_at m i k v))"

subsection \<open>Delete\<close>

text \<open>
  The later revisions. A matching head makes the shard slot point to the head's
  \<^verbatim>\<open>nextPair\<close> cell. Otherwise the loop walks with \<^verbatim>\<open>pp\<close>, the pair before the one
  examined; \<open>Delete_loop\<close> takes the contents of \<^verbatim>\<open>pp.nextPair\<close> and returns the new
  contents. When that cell is empty, \<^verbatim>\<open>np\<close> stays \<^verbatim>\<open>nil\<close> and \<^verbatim>\<open>np.key\<close> panics; the
  test \<^verbatim>\<open>pv == nil\<close> further down reads the same cell and so is never reached with an
  empty one. A match makes \<^verbatim>\<open>pp.nextPair\<close> point to the match's \<^verbatim>\<open>nextPair\<close> cell.
  The loop has no other exit, so a result of \<open>Delete_loop\<close> means \<^verbatim>\<open>true\<close>.
\<close>

fun Delete_loop :: "'v Value \<Rightarrow> string \<Rightarrow> panic + 'v Value" where
  "Delete_loop nil k = Inl NilDereference"
| "Delete_loop (keyValuePair nk nv nnx) k =
     (if nk = k then Inr nnx
      else (case Delete_loop nnx k of
              Inl e \<Rightarrow> Inl e
            | Inr c \<Rightarrow> Inr (keyValuePair nk nv c)))"

definition unlinked :: "'v lfm_map \<Rightarrow> nat \<Rightarrow> 'v Value \<Rightarrow> 'v lfm_map" where
  "unlinked m i c = m\<lparr>pairs := (pairs m)[i := c], length_m := length_m m - 1\<rparr>"

definition Delete_at :: "'v lfm_map \<Rightarrow> nat \<Rightarrow> string \<Rightarrow> panic + 'v lfm_map \<times> bool" where
  "Delete_at m i k =
     (case pairs m ! i of
        nil \<Rightarrow> Inr (m, False)
      | keyValuePair pk pv nx \<Rightarrow>
          if pk = k then Inr (unlinked m i nx, True)
          else (case Delete_loop nx k of
                  Inl e \<Rightarrow> Inl e
                | Inr c \<Rightarrow> Inr (unlinked m i (keyValuePair pk pv c), True)))"

definition Delete :: "'v lfm_map \<Rightarrow> string \<Rightarrow> panic + 'v lfm_map \<times> bool" where
  "Delete m k =
     (case shard m (index m k) of Inl e \<Rightarrow> Inl e | Inr i \<Rightarrow> Delete_at m i k)"

text \<open>
  \<^verbatim>\<open>map.go\<close>. \<^verbatim>\<open>atomic.Value.CompareAndSwap(old, new)\<close> panics when \<^verbatim>\<open>new\<close> is
  \<^verbatim>\<open>nil\<close>, and when the type of \<^verbatim>\<open>new\<close> differs from the type the cell holds. The head
  case swaps in \<^verbatim>\<open>p.nextPair.Load()\<close>, which is \<^verbatim>\<open>nil\<close> for a last pair. The loop swaps
  the \<^verbatim>\<open>*atomic.Value\<close> \<^verbatim>\<open>p.nextPair\<close> into \<^verbatim>\<open>pre\<close>, a cell that holds a
  \<^verbatim>\<open>*keyValuePair\<close>. The loop changes nothing, so it returns only the flag.
\<close>

fun mapgo_Delete_loop :: "'v Value \<Rightarrow> string \<Rightarrow> panic + bool" where
  "mapgo_Delete_loop nil k = Inr False"
| "mapgo_Delete_loop (keyValuePair pk pv nx) k =
     (if pk = k then Inl CompareAndSwapInconsistentType else mapgo_Delete_loop nx k)"

definition mapgo_Delete_at :: "'v lfm_map \<Rightarrow> nat \<Rightarrow> string \<Rightarrow> panic + 'v lfm_map \<times> bool" where
  "mapgo_Delete_at m i k =
     (case pairs m ! i of
        nil \<Rightarrow> Inr (m, False)
      | keyValuePair pk pv nx \<Rightarrow>
          if pk = k then
            (case nx of
               nil \<Rightarrow> Inl CompareAndSwapNil
             | keyValuePair nk nv nnx \<Rightarrow> Inr (unlinked m i nx, True))
          else (case mapgo_Delete_loop nx k of
                  Inl e \<Rightarrow> Inl e
                | Inr b \<Rightarrow> Inr (m, b)))"

definition mapgo_Delete :: "'v lfm_map \<Rightarrow> string \<Rightarrow> panic + 'v lfm_map \<times> bool" where
  "mapgo_Delete m k =
     (case shard m (mapgo_index m k) of Inl e \<Rightarrow> Inl e | Inr i \<Rightarrow> mapgo_Delete_at m i k)"

subsection \<open>Range and Length\<close>

text \<open>
  The visitor is a Go closure: it may keep state, so it is a function from its state
  to its answer and its new state. \<open>Range_chain\<close> is the inner loop on one shard and
  returns \<open>False\<close> when the visitor stopped the traversal (the \<^verbatim>\<open>return\<close>).
\<close>

fun Range_chain ::
  "(string \<Rightarrow> 'v interface \<Rightarrow> 's \<Rightarrow> bool \<times> 's) \<Rightarrow> 'v Value \<Rightarrow> 's \<Rightarrow> bool \<times> 's" where
  "Range_chain f nil s = (True, s)"
| "Range_chain f (keyValuePair pk pv nx) s =
     (case f pk pv s of
        (False, s') \<Rightarrow> (False, s')
      | (True, s') \<Rightarrow> Range_chain f nx s')"

fun Range_pairs ::
  "(string \<Rightarrow> 'v interface \<Rightarrow> 's \<Rightarrow> bool \<times> 's) \<Rightarrow> 'v Value list \<Rightarrow> 's \<Rightarrow> 's" where
  "Range_pairs f [] s = s"
| "Range_pairs f (c # cs) s =
     (case Range_chain f c s of
        (False, s') \<Rightarrow> s'
      | (True, s') \<Rightarrow> Range_pairs f cs s')"

definition Range ::
  "'v lfm_map \<Rightarrow> (string \<Rightarrow> 'v interface \<Rightarrow> 's \<Rightarrow> bool \<times> 's) \<Rightarrow> 's \<Rightarrow> 's" where
  "Range m f s = Range_pairs f (pairs m) s"

definition Length :: "'v lfm_map \<Rightarrow> int" where
  "Length m = sint (length_m m)"

subsection \<open>Sequences of calls and what a map holds\<close>

text \<open>
  A single-threaded sequence of calls: each runs on the map the previous one left, and a
  panic ends the run.
\<close>

fun run :: "('o \<Rightarrow> 'm \<Rightarrow> panic + 'm) \<Rightarrow> 'o list \<Rightarrow> 'm \<Rightarrow> panic + 'm" where
  "run step [] m = Inr m"
| "run step (x # xs) m =
     (case step x m of Inl e \<Rightarrow> Inl e | Inr m' \<Rightarrow> run step xs m')"

datatype 'v operation =
    OpStore string "'v interface"
  | OpLoadOrStore string "'v interface"
  | OpLoadAndStore string "'v interface"
  | OpStoreNotExists string "'v interface"
  | OpDelete string

fun apply_op :: "'v operation \<Rightarrow> 'v lfm_map \<Rightarrow> panic + 'v lfm_map" where
  "apply_op (OpStore k v) m = Store m k v"
| "apply_op (OpLoadOrStore k v) m = map_sum id fst (LoadOrStore m k v)"
| "apply_op (OpLoadAndStore k v) m = map_sum id fst (LoadAndStore m k v)"
| "apply_op (OpStoreNotExists k v) m = map_sum id fst (StoreNotExists m k v)"
| "apply_op (OpDelete k) m = map_sum id fst (Delete m k)"

text \<open>The calls \<^verbatim>\<open>map.go\<close> has.\<close>

datatype 'v mapgo_operation =
    MgStore string "'v interface"
  | MgLoadOrStore string "'v interface"
  | MgDelete string

fun mapgo_apply_op :: "'v mapgo_operation \<Rightarrow> 'v lfm_map \<Rightarrow> panic + 'v lfm_map" where
  "mapgo_apply_op (MgStore k v) m = mapgo_Store m k v"
| "mapgo_apply_op (MgLoadOrStore k v) m = map_sum id fst (mapgo_LoadOrStore m k v)"
| "mapgo_apply_op (MgDelete k) m = map_sum id fst (mapgo_Delete m k)"

text \<open>The pairs of a chain, from its head to its end, and of a map, shard after shard.\<close>

fun chain_entries :: "'v Value \<Rightarrow> (string \<times> 'v interface) list" where
  "chain_entries nil = []"
| "chain_entries (keyValuePair pk pv nx) = (pk, pv) # chain_entries nx"

definition chain_keys :: "'v Value \<Rightarrow> string list" where
  "chain_keys c = map fst (chain_entries c)"

definition entries :: "'v lfm_map \<Rightarrow> (string \<times> 'v interface) list" where
  "entries m = concat (map chain_entries (pairs m))"

definition map_keys :: "'v lfm_map \<Rightarrow> string list" where
  "map_keys m = concat (map chain_keys (pairs m))"

text \<open>The invariant of the data model: no key twice in one chain.\<close>

definition distinct_chains :: "'v lfm_map \<Rightarrow> bool" where
  "distinct_chains m \<longleftrightarrow> list_all (\<lambda>c. distinct (chain_keys c)) (pairs m)"

text \<open>
  What the specification says of \<^verbatim>\<open>Range\<close>: the visitor is called on the pairs in
  order until it answers \<open>False\<close>.
\<close>

fun visit ::
  "(string \<Rightarrow> 'v interface \<Rightarrow> 's \<Rightarrow> bool \<times> 's) \<Rightarrow> (string \<times> 'v interface) list \<Rightarrow> 's \<Rightarrow> 's" where
  "visit f [] s = s"
| "visit f ((k, v) # xs) s =
     (case f k v s of (False, s') \<Rightarrow> s' | (True, s') \<Rightarrow> visit f xs s')"

text \<open>
  The position the guarded router selects, as a natural number (for \<open>N \<ge> 1\<close> shards;
  the unguarded router selects the same one for \<open>N \<ge> 2\<close>).
\<close>

definition slot_of :: "'v lfm_map \<Rightarrow> string \<Rightarrow> nat" where
  "slot_of m k =
     (if length (pairs m) = 1 then 0
      else nat (hash_int k mod (int (length (pairs m)) - 1)))"

text \<open>Maps used as concrete inputs.\<close>

definition empty4 :: "nat lfm_map" where
  "empty4 = \<lparr>pairs = [nil, nil, nil, nil], length_m = 0\<rparr>"

definition one_a :: "nat lfm_map" where
  "one_a = \<lparr>pairs = [nil, keyValuePair ''a'' (Some 1) nil, nil, nil], length_m = 1\<rparr>"

definition three :: "nat lfm_map" where
  "three = \<lparr>pairs = [keyValuePair ''b'' (Some 2) nil,
                     keyValuePair ''a'' (Some 1) (keyValuePair ''d'' (Some 4) nil), nil, nil],
            length_m = 3\<rparr>"

definition after_delete :: "nat lfm_map" where
  "after_delete = \<lparr>pairs = [keyValuePair ''b'' (Some 2) nil, keyValuePair ''d'' (Some 4) nil,
                            nil, nil],
                   length_m = 2\<rparr>"

definition after_ops :: "nat lfm_map" where
  "after_ops = \<lparr>pairs = [keyValuePair ''b'' (Some 2) nil,
                         keyValuePair ''a'' (Some 1) (keyValuePair ''g'' (Some 7) nil), nil, nil],
                length_m = 3\<rparr>"

definition after_mapgo_ops :: "nat lfm_map" where
  "after_mapgo_ops = \<lparr>pairs = [nil, keyValuePair ''d'' (Some 4)
                                      (keyValuePair ''g'' (Some 7) nil), nil, nil],
                      length_m = 2\<rparr>"

definition one_shard :: "nat lfm_map" where
  "one_shard = \<lparr>pairs = [nil], length_m = 0\<rparr>"

section \<open>The hash router\<close>

lemma smod_nonneg: "0 \<le> a \<Longrightarrow> 0 < b \<Longrightarrow> a smod b = a mod (b::int)"
  by (cases "a = 0") (simp_all add: signed_modulo_int_def)

lemma clear_sign_eq_mask: "(push_bit 63 1 - 1 :: 64 word) = mask 63"
  by (simp add: mask_eq_exp_minus_1)

lemma sint_mask63: "sint (w AND mask 63 :: 64 word) = uint (w AND mask 63)"
proof -
  let ?x = "uint (w AND mask 63)"
  have nb: "\<not> bit ?x 63"
    by (simp add: bit_simps)
  have "sint (w AND mask 63) = signed_take_bit 63 ?x"
    by (simp only: sint_uint) simp
  also have "\<dots> = take_bit 63 ?x"
    using nb by (rule signed_take_bit_eq_if_positive)
  also have "\<dots> = ?x"
    by (simp add: take_bit_eq_mask uint_and uint_mask_eq and.assoc)
  finally show ?thesis .
qed

lemma hash_int_nonneg: "0 \<le> hash_int k"
  unfolding hash_int_def clear_sign_eq_mask sint_mask63 by simp

lemma index_many:
  "1 < length (pairs m) \<Longrightarrow>
     index m k = Inr (hash_int k mod (int (length (pairs m)) - 1))"
  by (simp add: index_def smod_nonneg hash_int_nonneg)

lemma mapgo_index_many:
  "1 < length (pairs m) \<Longrightarrow>
     mapgo_index m k = Inr (hash_int k mod (int (length (pairs m)) - 1))"
  by (simp add: mapgo_index_def smod_nonneg hash_int_nonneg)

lemma index_one: "length (pairs m) = 1 \<Longrightarrow> index m k = Inr 0"
  by (simp add: index_def)

lemma slot_of_less: "1 \<le> length (pairs m) \<Longrightarrow> slot_of m k < length (pairs m)"
proof (cases "length (pairs m) = 1")
  case True
  then show ?thesis by (simp add: slot_of_def)
next
  case False
  assume "1 \<le> length (pairs m)"
  with False have pos: "0 < int (length (pairs m)) - 1" by simp
  have "hash_int k mod (int (length (pairs m)) - 1) < int (length (pairs m)) - 1"
    using pos by (rule pos_mod_bound)
  moreover have "0 \<le> hash_int k mod (int (length (pairs m)) - 1)"
    using pos by (rule pos_mod_sign)
  ultimately show ?thesis using False by (simp add: slot_of_def)
qed

lemma shard_index:
  "1 \<le> length (pairs m) \<Longrightarrow> shard m (index m k) = Inr (slot_of m k)"
proof (cases "length (pairs m) = 1")
  case True
  then show ?thesis by (simp add: shard_def index_one in_range_def slot_of_def)
next
  case False
  assume "1 \<le> length (pairs m)"
  with False have many: "1 < length (pairs m)" by simp
  then have pos: "0 < int (length (pairs m)) - 1" by simp
  have "hash_int k mod (int (length (pairs m)) - 1) < int (length (pairs m)) - 1"
    using pos by (rule pos_mod_bound)
  moreover have "0 \<le> hash_int k mod (int (length (pairs m)) - 1)"
    using pos by (rule pos_mod_sign)
  ultimately show ?thesis
    using False by (simp add: shard_def index_many [OF many] in_range_def slot_of_def)
qed

lemma shard_mapgo_index:
  "2 \<le> length (pairs m) \<Longrightarrow> shard m (mapgo_index m k) = Inr (slot_of m k)"
proof -
  assume "2 \<le> length (pairs m)"
  then have many: "1 < length (pairs m)" by simp
  then have "shard m (mapgo_index m k) = shard m (index m k)"
    by (simp add: index_many mapgo_index_many)
  then show ?thesis using many by (simp add: shard_index)
qed

section \<open>The traversals on one chain\<close>

lemma chain_keys_simps [simp]:
  "chain_keys nil = []"
  "chain_keys (keyValuePair pk pv nx) = pk # chain_keys nx"
  by (simp_all add: chain_keys_def)

lemma Load_loop_found: "snd (Load_loop c k) \<longleftrightarrow> k \<in> set (chain_keys c)"
  by (induction c) auto

lemma Load_loop_absent: "k \<notin> set (chain_keys c) \<Longrightarrow> Load_loop c k = (None, False)"
  by (induction c) auto

lemma Load_loop_map_of:
  "Load_loop c k = (case map_of (chain_entries c) k of None \<Rightarrow> (None, False) | Some v \<Rightarrow> (v, True))"
  by (induction c) auto

lemma Store_loop_Load_same: "Load_loop (fst (Store_loop c k v)) k = (v, True)"
  by (induction c) (auto split: prod.splits)

lemma Store_loop_Load_other:
  "k' \<noteq> k \<Longrightarrow> Load_loop (fst (Store_loop c k v)) k' = Load_loop c k'"
  by (induction c) (auto split: prod.splits)

lemma Store_loop_keys:
  "chain_keys (fst (Store_loop c k v)) =
     (if k \<in> set (chain_keys c) then chain_keys c else chain_keys c @ [k])"
  by (induction c) (auto split: prod.splits)

lemma Store_loop_ins: "snd (Store_loop c k v) \<longleftrightarrow> k \<notin> set (chain_keys c)"
  by (induction c) (auto split: prod.splits)

lemma LoadOrStore_loop_present:
  "k \<in> set (chain_keys c) \<Longrightarrow> LoadOrStore_loop c k v = (c, fst (Load_loop c k), False)"
  by (induction c) (auto split: prod.splits)

lemma LoadOrStore_loop_absent:
  "k \<notin> set (chain_keys c) \<Longrightarrow>
     snd (LoadOrStore_loop c k v) = (v, True)
     \<and> chain_entries (fst (LoadOrStore_loop c k v)) = chain_entries c @ [(k, v)]"
  by (induction c) (auto split: prod.splits)

lemma LoadOrStore_loop_keys:
  "chain_keys (fst (LoadOrStore_loop c k v)) =
     (if k \<in> set (chain_keys c) then chain_keys c else chain_keys c @ [k])"
  by (induction c) (auto split: prod.splits)

lemma LoadAndStore_loop_keys:
  "chain_keys (fst (LoadAndStore_loop c k v)) =
     (if k \<in> set (chain_keys c) then chain_keys c else chain_keys c @ [k])"
  by (induction c) (auto split: prod.splits)

lemma StoreNotExists_loop_keys:
  "chain_keys (fst (StoreNotExists_loop c k v)) =
     (if k \<in> set (chain_keys c) then chain_keys c else chain_keys c @ [k])"
  by (induction c) (auto split: prod.splits)

lemma LoadAndStore_loop_present:
  "k \<in> set (chain_keys c) \<Longrightarrow>
     LoadAndStore_loop c k v = (fst (Store_loop c k v), fst (Load_loop c k), False)"
  by (induction c) (auto split: prod.splits)

lemma LoadAndStore_loop_absent:
  "k \<notin> set (chain_keys c) \<Longrightarrow>
     snd (LoadAndStore_loop c k v) = (None, True)
     \<and> chain_entries (fst (LoadAndStore_loop c k v)) = chain_entries c @ [(k, v)]"
  by (induction c) (auto split: prod.splits)

lemma Delete_loop_absent:
  "k \<notin> set (chain_keys c) \<Longrightarrow> Delete_loop c k = Inl NilDereference"
  by (induction c) auto

lemma Delete_loop_present:
  "k \<in> set (chain_keys c) \<Longrightarrow>
     \<exists>c'. Delete_loop c k = Inr c' \<and> chain_keys c' = remove1 k (chain_keys c)"
  by (induction c) auto

lemma Delete_loop_keys:
  "Delete_loop c k = Inr c' \<Longrightarrow> chain_keys c' = remove1 k (chain_keys c)"
  by (induction c arbitrary: c') (auto split: if_splits sum.splits)

lemma mapgo_Delete_loop_absent:
  "k \<notin> set (chain_keys c) \<Longrightarrow> mapgo_Delete_loop c k = Inr False"
  by (induction c) auto

lemma mapgo_Delete_loop_present:
  "k \<in> set (chain_keys c) \<Longrightarrow> mapgo_Delete_loop c k = Inl CompareAndSwapInconsistentType"
  by (induction c) auto

lemma Range_chain_visit:
  "visit f (chain_entries c @ rest) s =
     (if fst (Range_chain f c s) then visit f rest (snd (Range_chain f c s))
      else snd (Range_chain f c s))"
  by (induction c arbitrary: s) (auto split: prod.splits bool.splits)

lemma Range_pairs_visit:
  "Range_pairs f cs s = visit f (concat (map chain_entries cs)) s"
  by (induction cs arbitrary: s) (auto simp: Range_chain_visit split: prod.splits bool.splits)

section \<open>The operations on a map\<close>

lemma pairs_installed [simp]: "pairs (installed m i c ins) = (pairs m)[i := c]"
  by (simp add: installed_def)

lemma length_m_installed [simp]:
  "length_m (installed m i c ins) = (if ins then length_m m + 1 else length_m m)"
  by (simp add: installed_def)

lemma installed_same: "installed m i (pairs m ! i) False = m"
  by (simp add: installed_def)

lemma pairs_unlinked [simp]: "pairs (unlinked m i c) = (pairs m)[i := c]"
  by (simp add: unlinked_def)

lemma length_m_unlinked [simp]: "length_m (unlinked m i c) = length_m m - 1"
  by (simp add: unlinked_def)

lemma slot_of_cong: "length (pairs m') = length (pairs m) \<Longrightarrow> slot_of m' k = slot_of m k"
  by (simp add: slot_of_def)

lemma pairs_Store_at: "pairs (Store_at m i k v) = (pairs m)[i := fst (Store_loop (pairs m ! i) k v)]"
  by (simp add: Store_at_def split: prod.splits)

lemma length_m_Store_at:
  "length_m (Store_at m i k v) =
     (if k \<in> set (chain_keys (pairs m ! i)) then length_m m else length_m m + 1)"
  using Store_loop_ins [of "pairs m ! i" k v]
  by (auto simp add: Store_at_def split: prod.splits)

lemma Load_at_Store_at:
  "i < length (pairs m) \<Longrightarrow> Load_at (Store_at m i k v) i k = (v, True)"
  by (simp add: Load_at_def pairs_Store_at Store_loop_Load_same)

lemma run_Store_at:
  "i < length (pairs m) \<Longrightarrow>
   \<exists>m'. run (\<lambda>v m. Inr (Store_at m i k v)) vs m = Inr m'
       \<and> length (pairs m') = length (pairs m)
       \<and> (vs \<noteq> [] \<longrightarrow> Load_at m' i k = (last vs, True))"
proof (induction vs arbitrary: m)
  case Nil
  then show ?case by simp
next
  case (Cons v vs)
  let ?m1 = "Store_at m i k v"
  have len: "length (pairs ?m1) = length (pairs m)" by (simp add: pairs_Store_at)
  with Cons.prems have "i < length (pairs ?m1)" by simp
  from Cons.IH [OF this] obtain m' where
    r: "run (\<lambda>v m. Inr (Store_at m i k v)) vs ?m1 = Inr m'"
    and l: "length (pairs m') = length (pairs ?m1)"
    and v: "vs \<noteq> [] \<longrightarrow> Load_at m' i k = (last vs, True)" by blast
  show ?case
  proof (cases "vs = []")
    case True
    with r have "m' = ?m1" by simp
    with True r l len Cons.prems show ?thesis by (simp add: Load_at_Store_at)
  next
    case False
    with r l len v show ?thesis by simp
  qed
qed

lemma Store_eq: "1 \<le> length (pairs m) \<Longrightarrow> Store m k v = Inr (Store_at m (slot_of m k) k v)"
  by (simp add: Store_def shard_index)
lemma Load_eq: "1 \<le> length (pairs m) \<Longrightarrow> Load m k = Inr (Load_at m (slot_of m k) k)"
  by (simp add: Load_def shard_index)
lemma LoadOrStore_eq:
  "1 \<le> length (pairs m) \<Longrightarrow> LoadOrStore m k v = Inr (LoadOrStore_at m (slot_of m k) k v)"
  by (simp add: LoadOrStore_def shard_index)
lemma LoadAndStore_eq:
  "1 \<le> length (pairs m) \<Longrightarrow> LoadAndStore m k v = Inr (LoadAndStore_at m (slot_of m k) k v)"
  by (simp add: LoadAndStore_def shard_index)
lemma StoreNotExists_eq:
  "1 \<le> length (pairs m) \<Longrightarrow> StoreNotExists m k v = Inr (StoreNotExists_at m (slot_of m k) k v)"
  by (simp add: StoreNotExists_def shard_index)
lemma Delete_eq: "1 \<le> length (pairs m) \<Longrightarrow> Delete m k = Delete_at m (slot_of m k) k"
  by (simp add: Delete_def shard_index)
lemma mapgo_Store_eq:
  "2 \<le> length (pairs m) \<Longrightarrow> mapgo_Store m k v = Inr (Store_at m (slot_of m k) k v)"
  by (simp add: mapgo_Store_def shard_mapgo_index)
lemma mapgo_Load_eq: "2 \<le> length (pairs m) \<Longrightarrow> mapgo_Load m k = Inr (Load_at m (slot_of m k) k)"
  by (simp add: mapgo_Load_def shard_mapgo_index)
lemma mapgo_LoadOrStore_eq:
  "2 \<le> length (pairs m) \<Longrightarrow> mapgo_LoadOrStore m k v = Inr (LoadOrStore_at m (slot_of m k) k v)"
  by (simp add: mapgo_LoadOrStore_def shard_mapgo_index)
lemma mapgo_Delete_eq:
  "2 \<le> length (pairs m) \<Longrightarrow> mapgo_Delete m k = mapgo_Delete_at m (slot_of m k) k"
  by (simp add: mapgo_Delete_def shard_mapgo_index)

lemma run_Store_same_key:
  assumes st: "\<And>m v. length (pairs m) = n \<Longrightarrow> st v m = Inr (Store_at m i k v)"
    and i: "i < n"
  shows "length (pairs m) = n \<Longrightarrow>
     \<exists>m'. run st vs m = Inr m' \<and> length (pairs m') = n
        \<and> (vs \<noteq> [] \<longrightarrow> Load_at m' i k = (last vs, True))"
proof (induction vs arbitrary: m)
  case Nil
  then show ?case by simp
next
  case (Cons v vs)
  let ?m1 = "Store_at m i k v"
  have len: "length (pairs ?m1) = n" using Cons.prems by (simp add: pairs_Store_at)
  from Cons.IH [OF len] obtain m' where
    r: "run st vs ?m1 = Inr m'"
    and l: "length (pairs m') = n"
    and v: "vs \<noteq> [] \<longrightarrow> Load_at m' i k = (last vs, True)" by blast
  have step: "st v m = Inr ?m1" using Cons.prems by (rule st)
  show ?case
  proof (cases "vs = []")
    case True
    with r have "m' = ?m1" by simp
    with True step len i Cons.prems show ?thesis by (simp add: Load_at_Store_at)
  next
    case False
    with r l v step show ?thesis by simp
  qed
qed

section \<open>Store and Load\<close>

lemma Store_slot:
  "1 \<le> length (pairs m) \<Longrightarrow> length (pairs m') = length (pairs m) \<Longrightarrow>
     Store m' k v = Inr (Store_at m' (slot_of m k) k v)"
  using Store_eq [of m' k v] slot_of_cong [of m' m k] by simp

lemma Load_slot:
  "1 \<le> length (pairs m) \<Longrightarrow> length (pairs m') = length (pairs m) \<Longrightarrow>
     Load m' k = Inr (Load_at m' (slot_of m k) k)"
  using Load_eq [of m' k] slot_of_cong [of m' m k] by simp

lemma mapgo_Store_slot:
  "2 \<le> length (pairs m) \<Longrightarrow> length (pairs m') = length (pairs m) \<Longrightarrow>
     mapgo_Store m' k v = Inr (Store_at m' (slot_of m k) k v)"
  using mapgo_Store_eq [of m' k v] slot_of_cong [of m' m k] by simp

lemma mapgo_Load_slot:
  "2 \<le> length (pairs m) \<Longrightarrow> length (pairs m') = length (pairs m) \<Longrightarrow>
     mapgo_Load m' k = Inr (Load_at m' (slot_of m k) k)"
  using mapgo_Load_eq [of m' k] slot_of_cong [of m' m k] by simp

lemma Load_after_Stores_at:
  assumes st: "\<And>m' v. length (pairs m') = length (pairs m) \<Longrightarrow> st v m' = Inr (Store_at m' i k v)"
    and ld: "\<And>m'. length (pairs m') = length (pairs m) \<Longrightarrow> ld m' = Inr (Load_at m' i k)"
    and i: "i < length (pairs m)" and vs: "vs \<noteq> []"
  shows "\<exists>m'. run st vs m = Inr m' \<and> ld m' = Inr (last vs, True)"
proof -
  have "\<exists>m'. run st vs m = Inr m' \<and> length (pairs m') = length (pairs m)
        \<and> (vs \<noteq> [] \<longrightarrow> Load_at m' i k = (last vs, True))"
    by (rule run_Store_same_key [where n = "length (pairs m)" and i = i])
       (simp_all only: st i)
  then obtain m' where r: "run st vs m = Inr m'"
    and l: "length (pairs m') = length (pairs m)" and v: "Load_at m' i k = (last vs, True)"
    using vs by blast
  from ld [OF l] v have "ld m' = Inr (last vs, True)" by simp
  with r show ?thesis by blast
qed

text \<open>
  C5. After one or more \<^verbatim>\<open>Store\<close> calls on one key, run one after the other from any
  map, \<^verbatim>\<open>Load\<close> of the key returns the value of the last call and \<open>found = true\<close>.
  The calls complete from one shard on with the guarded router, and from two shards on
  in \<^verbatim>\<open>map.go\<close>, whose router divides by zero with one shard.
\<close>

theorem Load_after_Stores:
  assumes "vs \<noteq> []"
  shows "(1 \<le> length (pairs m) \<longrightarrow>
            (\<exists>m'. run (\<lambda>v m. Store m k v) vs m = Inr m'
                 \<and> Load m' k = Inr (last vs, True)))
       \<and> (2 \<le> length (pairs m) \<longrightarrow>
            (\<exists>m'. run (\<lambda>v m. mapgo_Store m k v) vs m = Inr m'
                 \<and> mapgo_Load m' k = Inr (last vs, True)))"
proof (intro conjI impI)
  assume n: "1 \<le> length (pairs m)"
  show "\<exists>m'. run (\<lambda>v m. Store m k v) vs m = Inr m' \<and> Load m' k = Inr (last vs, True)"
    by (rule Load_after_Stores_at [where i = "slot_of m k" and ld = "\<lambda>m. Load m k"])
       (simp_all only: Store_slot [OF n] Load_slot [OF n] slot_of_less [OF n] assms
          not_False_eq_True)
next
  assume n: "2 \<le> length (pairs m)"
  then have n1: "1 \<le> length (pairs m)" by simp
  show "\<exists>m'. run (\<lambda>v m. mapgo_Store m k v) vs m = Inr m'
      \<and> mapgo_Load m' k = Inr (last vs, True)"
    by (rule Load_after_Stores_at [where i = "slot_of m k" and ld = "\<lambda>m. mapgo_Load m k"])
       (simp_all only: mapgo_Store_slot [OF n] mapgo_Load_slot [OF n] slot_of_less [OF n1] assms
          not_False_eq_True)
qed

theorem Load_after_Stores_witness:
  "[Some 1, Some 2, Some (3::nat)] \<noteq> [] \<and> 1 \<le> length (pairs empty4)
   \<and> 2 \<le> length (pairs empty4)
   \<and> (\<exists>m'. run (\<lambda>v m. Store m ''a'' v) [Some 1, Some 2, Some 3] empty4 = Inr m'
          \<and> Load m' ''a'' = Inr (Some 3, True))
   \<and> (\<exists>m'. run (\<lambda>v m. mapgo_Store m ''a'' v) [Some 1, Some 2, Some 3] empty4 = Inr m'
          \<and> mapgo_Load m' ''a'' = Inr (Some 3, True))"
proof -
  have h: "[Some 1, Some 2, Some (3::nat)] \<noteq> []" by simp
  have n: "1 \<le> length (pairs empty4)" "2 \<le> length (pairs empty4)"
    by (simp_all add: empty4_def)
  show ?thesis
    using n Load_after_Stores [OF h, of empty4 "''a''"] by simp
qed

section \<open>LoadOrStore\<close>

lemma LoadOrStore_slot:
  "1 \<le> length (pairs m) \<Longrightarrow> length (pairs m') = length (pairs m) \<Longrightarrow>
     LoadOrStore m' k v = Inr (LoadOrStore_at m' (slot_of m k) k v)"
  using LoadOrStore_eq [of m' k v] slot_of_cong [of m' m k] by simp

lemma mapgo_LoadOrStore_slot:
  "2 \<le> length (pairs m) \<Longrightarrow> length (pairs m') = length (pairs m) \<Longrightarrow>
     mapgo_LoadOrStore m' k v = Inr (LoadOrStore_at m' (slot_of m k) k v)"
  using mapgo_LoadOrStore_eq [of m' k v] slot_of_cong [of m' m k] by simp

lemma LoadOrStore_loop_absent_Load:
  "k \<notin> set (chain_keys c) \<Longrightarrow> Load_loop (fst (LoadOrStore_loop c k v)) k = (v, True)"
  by (induction c) (auto split: prod.splits)

lemma LoadOrStore_loop_Load_other:
  "k' \<noteq> k \<Longrightarrow> Load_loop (fst (LoadOrStore_loop c k v)) k' = Load_loop c k'"
  by (induction c) (auto split: prod.splits)

text \<open>What an insertion at the end of the chain of shard \<open>i\<close> leaves behind.\<close>

lemma LoadOrStore_at_absent:
  assumes i: "i < length (pairs m)" and a: "Load_at m i k = (x, False)"
  shows "\<exists>m1. LoadOrStore_at m i k v = (m1, v, True)
     \<and> Load_at m1 i k = (v, True)
     \<and> LoadOrStore_at m1 i k w = (m1, v, False)
     \<and> length (pairs m1) = length (pairs m)
     \<and> length_m m1 = length_m m + 1
     \<and> chain_entries (pairs m1 ! i) = chain_entries (pairs m ! i) @ [(k, v)]
     \<and> (\<forall>j. j \<noteq> i \<longrightarrow> pairs m1 ! j = pairs m ! j)"
proof -
  let ?c = "pairs m ! i"
  let ?c1 = "fst (LoadOrStore_loop ?c k v)"
  let ?m1 = "installed m i ?c1 True"
  from a have nk: "k \<notin> set (chain_keys ?c)"
    using Load_loop_found [of ?c k] by (simp add: Load_at_def)
  have e: "chain_entries ?c1 = chain_entries ?c @ [(k, v)]"
    using LoadOrStore_loop_absent [OF nk, of v] by simp
  have s: "snd (LoadOrStore_loop ?c k v) = (v, True)"
    using LoadOrStore_loop_absent [OF nk, of v] by simp
  have r1: "LoadOrStore_at m i k v = (?m1, v, True)"
    by (simp add: LoadOrStore_at_def case_prod_beta s)
  have p1: "pairs ?m1 ! i = ?c1" using i by simp
  have ld: "Load_at ?m1 i k = (v, True)"
    by (simp only: Load_at_def p1 LoadOrStore_loop_absent_Load [OF nk])
  then have ink: "k \<in> set (chain_keys (pairs ?m1 ! i))"
    using Load_loop_found [of "pairs ?m1 ! i" k] by (simp add: Load_at_def)
  have "LoadOrStore_loop (pairs ?m1 ! i) k w = (pairs ?m1 ! i, fst (Load_loop (pairs ?m1 ! i) k), False)"
    using ink by (rule LoadOrStore_loop_present)
  also have "fst (Load_loop (pairs ?m1 ! i) k) = v"
    using ld by (simp add: Load_at_def)
  finally have r2: "LoadOrStore_at ?m1 i k w = (?m1, v, False)"
    by (simp only: LoadOrStore_at_def prod.case installed_same)
  show ?thesis
    using r1 ld r2 e i by (intro exI [of _ ?m1]) simp
qed


lemma Load_Inr_shards: "Load m k = Inr r \<Longrightarrow> 1 \<le> length (pairs m)"
  by (cases "length (pairs m) = 0")
     (auto simp: Load_def shard_def index_def in_range_def split: sum.splits if_splits)

lemma mapgo_Load_Inr_shards: "mapgo_Load m k = Inr r \<Longrightarrow> 2 \<le> length (pairs m)"
proof (rule ccontr)
  assume r: "mapgo_Load m k = Inr r" and "\<not> 2 \<le> length (pairs m)"
  then have "length (pairs m) = 0 \<or> length (pairs m) = 1" by arith
  with r show False
    by (auto simp: mapgo_Load_def shard_def mapgo_index_def in_range_def
        split: sum.splits if_splits)
qed

lemma LoadOrStore_twice_at:
  assumes ld: "\<And>m'. length (pairs m') = length (pairs m) \<Longrightarrow> ld m' = Inr (Load_at m' i k)"
    and los: "\<And>m' u. length (pairs m') = length (pairs m) \<Longrightarrow>
                 los m' u = Inr (LoadOrStore_at m' i k u)"
    and i: "i < length (pairs m)" and a: "ld m = Inr (x, False)"
  shows "\<exists>m1. los m v = Inr (m1, v, True)
     \<and> ld m1 = Inr (v, True)
     \<and> los m1 w = Inr (m1, v, False)
     \<and> length_m m1 = length_m m + 1
     \<and> chain_entries (pairs m1 ! i) = chain_entries (pairs m ! i) @ [(k, v)]
     \<and> (\<forall>j. j \<noteq> i \<longrightarrow> pairs m1 ! j = pairs m ! j)"
proof -
  from a ld [OF refl] have "Load_at m i k = (x, False)" by simp
  from LoadOrStore_at_absent [OF i this, of v w] obtain m1 where
    1: "LoadOrStore_at m i k v = (m1, v, True)" and 2: "Load_at m1 i k = (v, True)"
    and 3: "LoadOrStore_at m1 i k w = (m1, v, False)"
    and 4: "length (pairs m1) = length (pairs m)"
    and 5: "length_m m1 = length_m m + 1"
    and 6: "chain_entries (pairs m1 ! i) = chain_entries (pairs m ! i) @ [(k, v)]"
    and 7: "\<forall>j. j \<noteq> i \<longrightarrow> pairs m1 ! j = pairs m ! j" by blast
  have "los m v = Inr (m1, v, True)" using los [OF refl, of v] 1 by simp
  moreover have "ld m1 = Inr (v, True)" using ld [OF 4] 2 by simp
  moreover have "los m1 w = Inr (m1, v, False)" using los [OF 4, of w] 3 by simp
  ultimately show ?thesis using 5 6 7 by blast
qed

text \<open>
  C6. On a key that \<^verbatim>\<open>Load\<close> does not find, \<^verbatim>\<open>LoadOrStore(k, v)\<close> returns
  \<open>(v, true)\<close>, appends the pair \<open>(k, v)\<close> to the chain of the key's shard, leaves the
  other shards as they were and adds one to the counter; \<^verbatim>\<open>Load\<close> then finds \<open>v\<close>. A
  second \<^verbatim>\<open>LoadOrStore(k, w)\<close> returns \<open>(v, false)\<close> and the map it leaves is the
  map it was given. Both for the guarded revisions and for \<^verbatim>\<open>map.go\<close>.
\<close>

theorem LoadOrStore_twice:
  "(Load m k = Inr (x, False) \<longrightarrow>
      (\<exists>m1. LoadOrStore m k v = Inr (m1, v, True)
          \<and> Load m1 k = Inr (v, True)
          \<and> LoadOrStore m1 k w = Inr (m1, v, False)
          \<and> length_m m1 = length_m m + 1
          \<and> chain_entries (pairs m1 ! slot_of m k)
              = chain_entries (pairs m ! slot_of m k) @ [(k, v)]
          \<and> (\<forall>j. j \<noteq> slot_of m k \<longrightarrow> pairs m1 ! j = pairs m ! j)))
 \<and> (mapgo_Load m k = Inr (x, False) \<longrightarrow>
      (\<exists>m1. mapgo_LoadOrStore m k v = Inr (m1, v, True)
          \<and> mapgo_Load m1 k = Inr (v, True)
          \<and> mapgo_LoadOrStore m1 k w = Inr (m1, v, False)
          \<and> length_m m1 = length_m m + 1
          \<and> chain_entries (pairs m1 ! slot_of m k)
              = chain_entries (pairs m ! slot_of m k) @ [(k, v)]
          \<and> (\<forall>j. j \<noteq> slot_of m k \<longrightarrow> pairs m1 ! j = pairs m ! j)))"
proof (intro conjI impI)
  assume a: "Load m k = Inr (x, False)"
  then have n: "1 \<le> length (pairs m)" by (rule Load_Inr_shards)
  show "\<exists>m1. LoadOrStore m k v = Inr (m1, v, True)
          \<and> Load m1 k = Inr (v, True)
          \<and> LoadOrStore m1 k w = Inr (m1, v, False)
          \<and> length_m m1 = length_m m + 1
          \<and> chain_entries (pairs m1 ! slot_of m k)
              = chain_entries (pairs m ! slot_of m k) @ [(k, v)]
          \<and> (\<forall>j. j \<noteq> slot_of m k \<longrightarrow> pairs m1 ! j = pairs m ! j)"
    by (rule LoadOrStore_twice_at [where ld = "\<lambda>m. Load m k" and los = "\<lambda>m u. LoadOrStore m k u"
          and x = x])
       (simp_all only: Load_slot [OF n] LoadOrStore_slot [OF n] slot_of_less [OF n] a)
next
  assume a: "mapgo_Load m k = Inr (x, False)"
  then have n: "2 \<le> length (pairs m)" by (rule mapgo_Load_Inr_shards)
  then have n1: "1 \<le> length (pairs m)" by simp
  show "\<exists>m1. mapgo_LoadOrStore m k v = Inr (m1, v, True)
          \<and> mapgo_Load m1 k = Inr (v, True)
          \<and> mapgo_LoadOrStore m1 k w = Inr (m1, v, False)
          \<and> length_m m1 = length_m m + 1
          \<and> chain_entries (pairs m1 ! slot_of m k)
              = chain_entries (pairs m ! slot_of m k) @ [(k, v)]
          \<and> (\<forall>j. j \<noteq> slot_of m k \<longrightarrow> pairs m1 ! j = pairs m ! j)"
    by (rule LoadOrStore_twice_at [where ld = "\<lambda>m. mapgo_Load m k"
          and los = "\<lambda>m u. mapgo_LoadOrStore m k u" and x = x])
       (simp_all only: mapgo_Load_slot [OF n] mapgo_LoadOrStore_slot [OF n] slot_of_less [OF n1] a)
qed

theorem LoadOrStore_twice_witness:
  "Load one_a ''d'' = Inr (None, False) \<and> mapgo_Load one_a ''d'' = Inr (None, False)
   \<and> (\<exists>m1. LoadOrStore one_a ''d'' (Some 7) = Inr (m1, Some 7, True)
          \<and> Load m1 ''d'' = Inr (Some 7, True)
          \<and> LoadOrStore m1 ''d'' (Some 9) = Inr (m1, Some 7, False))
   \<and> (\<exists>m1. mapgo_LoadOrStore one_a ''d'' (Some 7) = Inr (m1, Some 7, True)
          \<and> mapgo_Load m1 ''d'' = Inr (Some 7, True)
          \<and> mapgo_LoadOrStore m1 ''d'' (Some 9) = Inr (m1, Some 7, False))"
proof -
  have a: "Load one_a ''d'' = Inr (None, False)" by code_simp
  have b: "mapgo_Load one_a ''d'' = Inr (None, False)" by code_simp
  from LoadOrStore_twice [of one_a "''d''" None "Some 7" "Some 9"] a b
  show ?thesis by blast
qed

section \<open>LoadAndStore\<close>

lemma LoadAndStore_slot:
  "1 \<le> length (pairs m) \<Longrightarrow> length (pairs m') = length (pairs m) \<Longrightarrow>
     LoadAndStore m' k v = Inr (LoadAndStore_at m' (slot_of m k) k v)"
  using LoadAndStore_eq [of m' k v] slot_of_cong [of m' m k] by simp

lemma LoadAndStore_loop_Load_same:
  "Load_loop (fst (LoadAndStore_loop c k v)) k = (v, True)"
  by (induction c) (auto split: prod.splits)

lemma LoadAndStore_loop_Load_other:
  "k' \<noteq> k \<Longrightarrow> Load_loop (fst (LoadAndStore_loop c k v)) k' = Load_loop c k'"
  by (induction c) (auto split: prod.splits)

lemma LoadAndStore_loop_result:
  "snd (LoadAndStore_loop c k v) =
     (if k \<in> set (chain_keys c) then (fst (Load_loop c k), False) else (None, True))"
  by (induction c) (auto split: prod.splits)

lemma pairs_LoadAndStore_at:
  "pairs (fst (LoadAndStore_at m i k v)) = (pairs m)[i := fst (LoadAndStore_loop (pairs m ! i) k v)]"
  by (simp add: LoadAndStore_at_def case_prod_beta)

lemma length_m_LoadAndStore_at:
  "length_m (fst (LoadAndStore_at m i k v)) =
     (if k \<in> set (chain_keys (pairs m ! i)) then length_m m else length_m m + 1)"
  by (simp add: LoadAndStore_at_def case_prod_beta LoadAndStore_loop_result)

lemma result_LoadAndStore_at:
  "snd (LoadAndStore_at m i k v) =
     (if k \<in> set (chain_keys (pairs m ! i)) then fst (Load_loop (pairs m ! i) k) else None)"
  by (simp add: LoadAndStore_at_def case_prod_beta LoadAndStore_loop_result)

lemma Load_at_found: "snd (Load_at m i k) \<longleftrightarrow> k \<in> set (chain_keys (pairs m ! i))"
  by (simp add: Load_at_def Load_loop_found)

text \<open>A call that rewrites the chain of shard \<open>i\<close> for key \<open>k\<close> and keeps what
  \<^verbatim>\<open>Load\<close> finds there for the other keys, keeps it in the whole map.\<close>

lemma Load_other_key:
  assumes n: "1 \<le> length (pairs m)"
    and p: "pairs m' = (pairs m)[slot_of m k := c']"
    and o: "\<And>k'. k' \<noteq> k \<Longrightarrow> Load_loop c' k' = Load_loop (pairs m ! slot_of m k) k'"
    and k': "k' \<noteq> k"
  shows "Load m' k' = Load m k'"
proof -
  have l: "length (pairs m') = length (pairs m)" using p by simp
  have i: "slot_of m k < length (pairs m)" using n by (rule slot_of_less)
  have "Load_at m' (slot_of m k') k' = Load_at m (slot_of m k') k'"
  proof (cases "slot_of m k' = slot_of m k")
    case True
    then show ?thesis using i o [OF k'] by (simp add: Load_at_def p)
  next
    case False
    then show ?thesis by (simp add: Load_at_def p)
  qed
  then show ?thesis
    by (simp only: Load_slot [OF n l] Load_slot [OF n refl])
qed

text \<open>
  C7. \<^verbatim>\<open>LoadAndStore(k, v)\<close> on a map with at least one shard always completes, and
  afterwards \<^verbatim>\<open>Load(k)\<close> finds \<open>v\<close> while every other key loads what it did before.
  If \<open>k\<close> was present with value \<open>old\<close>, the call returns \<open>old\<close>, and the counter and the
  keys of every chain stay as they were. If \<open>k\<close> was absent, the call returns \<^verbatim>\<open>nil\<close>,
  adds one to the counter and appends the pair \<open>(k, v)\<close> to the chain of the key's shard,
  leaving the other shards untouched.
\<close>

theorem LoadAndStore_swap:
  assumes n: "1 \<le> length (pairs m)"
  shows "\<exists>m' r. LoadAndStore m k v = Inr (m', r)
     \<and> Load m' k = Inr (v, True)
     \<and> (\<forall>k'. k' \<noteq> k \<longrightarrow> Load m' k' = Load m k')
     \<and> (\<forall>old. Load m k = Inr (old, True) \<longrightarrow>
            r = old \<and> length_m m' = length_m m
            \<and> map chain_keys (pairs m') = map chain_keys (pairs m))
     \<and> (Load m k = Inr (None, False) \<longrightarrow>
            r = None \<and> length_m m' = length_m m + 1
            \<and> chain_entries (pairs m' ! slot_of m k)
                = chain_entries (pairs m ! slot_of m k) @ [(k, v)]
            \<and> (\<forall>j. j \<noteq> slot_of m k \<longrightarrow> pairs m' ! j = pairs m ! j))"
proof -
  let ?i = "slot_of m k"
  let ?c = "pairs m ! ?i"
  let ?c' = "fst (LoadAndStore_loop ?c k v)"
  let ?m' = "fst (LoadAndStore_at m ?i k v)" and ?r = "snd (LoadAndStore_at m ?i k v)"
  have i: "?i < length (pairs m)" using n by (rule slot_of_less)
  have p: "pairs ?m' = (pairs m)[?i := ?c']" by (rule pairs_LoadAndStore_at)
  then have l: "length (pairs ?m') = length (pairs m)" by simp
  have 1: "LoadAndStore m k v = Inr (?m', ?r)"
    by (simp add: LoadAndStore_eq [OF n])
  have 2: "Load ?m' k = Inr (v, True)"
    using i by (simp add: Load_slot [OF n l] Load_at_def p LoadAndStore_loop_Load_same)
  have 3: "\<forall>k'. k' \<noteq> k \<longrightarrow> Load ?m' k' = Load m k'"
    using Load_other_key [OF n p] LoadAndStore_loop_Load_other by blast
  have ld: "Load m k = Inr (Load_loop ?c k)"
    by (simp add: Load_eq [OF n] Load_at_def)
  have 4: "\<forall>old. Load m k = Inr (old, True) \<longrightarrow>
            ?r = old \<and> length_m ?m' = length_m m
            \<and> map chain_keys (pairs ?m') = map chain_keys (pairs m)"
  proof (intro allI impI)
    fix old assume "Load m k = Inr (old, True)"
    with ld have e: "Load_loop ?c k = (old, True)" by simp
    then have ink: "k \<in> set (chain_keys ?c)" using Load_loop_found [of ?c k] by simp
    have "chain_keys ?c' = chain_keys ?c" using ink by (simp add: LoadAndStore_loop_keys)
    then have "map chain_keys (pairs ?m') = map chain_keys (pairs m)"
      using i by (simp add: p map_update list_update_same_conv)
    then show "?r = old \<and> length_m ?m' = length_m m
            \<and> map chain_keys (pairs ?m') = map chain_keys (pairs m)"
      using ink e by (simp add: result_LoadAndStore_at length_m_LoadAndStore_at)
  qed
  have 5: "Load m k = Inr (None, False) \<longrightarrow>
            ?r = None \<and> length_m ?m' = length_m m + 1
            \<and> chain_entries (pairs ?m' ! ?i) = chain_entries ?c @ [(k, v)]
            \<and> (\<forall>j. j \<noteq> ?i \<longrightarrow> pairs ?m' ! j = pairs m ! j)"
  proof
    assume "Load m k = Inr (None, False)"
    with ld have e: "Load_loop ?c k = (None, False)" by simp
    then have nk: "k \<notin> set (chain_keys ?c)" using Load_loop_found [of ?c k] by simp
    show "?r = None \<and> length_m ?m' = length_m m + 1
            \<and> chain_entries (pairs ?m' ! ?i) = chain_entries ?c @ [(k, v)]
            \<and> (\<forall>j. j \<noteq> ?i \<longrightarrow> pairs ?m' ! j = pairs m ! j)"
      using nk i LoadAndStore_loop_absent [OF nk, of v]
      by (simp add: result_LoadAndStore_at length_m_LoadAndStore_at p)
  qed
  from 1 2 3 4 5 show ?thesis by blast
qed

theorem LoadAndStore_swap_witness:
  "1 \<le> length (pairs one_a)
   \<and> Load one_a ''a'' = Inr (Some 1, True)
   \<and> (\<exists>m'. LoadAndStore one_a ''a'' (Some 5) = Inr (m', Some 1)
          \<and> Load m' ''a'' = Inr (Some 5, True) \<and> length_m m' = 1)
   \<and> Load one_a ''d'' = Inr (None, False)
   \<and> (\<exists>m'. LoadAndStore one_a ''d'' (Some 5) = Inr (m', None)
          \<and> Load m' ''d'' = Inr (Some 5, True) \<and> length_m m' = 2)"
proof -
  have n: "1 \<le> length (pairs one_a)" by (simp add: one_a_def)
  have a: "Load one_a ''a'' = Inr (Some 1, True)" by code_simp
  have d: "Load one_a ''d'' = Inr (None, False)" by code_simp
  have c: "length_m one_a = 1" by (simp add: one_a_def)
  from LoadAndStore_swap [OF n, of "''a''" "Some 5"] a c
  have 1: "\<exists>m'. LoadAndStore one_a ''a'' (Some 5) = Inr (m', Some 1)
          \<and> Load m' ''a'' = Inr (Some 5, True) \<and> length_m m' = 1"
    by auto
  from LoadAndStore_swap [OF n, of "''d''" "Some 5"] d c
  have 2: "\<exists>m'. LoadAndStore one_a ''d'' (Some 5) = Inr (m', None)
          \<and> Load m' ''d'' = Inr (Some 5, True) \<and> length_m m' = 2"
    by auto
  from n a d 1 2 show ?thesis by blast
qed

section \<open>Range\<close>

lemma visit_recording:
  "visit (\<lambda>k v tr. (p k v, tr @ [(k, v)])) xs tr0 =
     tr0 @ takeWhile (\<lambda>(k, v). p k v) xs @ take 1 (dropWhile (\<lambda>(k, v). p k v) xs)"
  by (induction xs arbitrary: tr0) auto

lemma visit_recording_all: "visit (\<lambda>k v tr. (True, tr @ [(k, v)])) xs tr0 = tr0 @ xs"
  by (induction xs arbitrary: tr0) auto

lemma Range_visit: "Range m f s = visit f (entries m) s"
  by (simp add: Range_def entries_def Range_pairs_visit)

text \<open>
  C9. \<^verbatim>\<open>Range\<close> calls the visitor on the pairs of the map in the order of \<open>entries\<close>:
  shard 0 to shard \<open>N - 1\<close>, each chain from its head to its end, every pair once, and
  it stops after the first call in which the visitor answers \<open>False\<close>. So the calls a
  recording visitor sees are the pairs up to and including the first one it stops on,
  and all the pairs when it never stops.
\<close>

theorem Range_in_order:
  "Range m f s = visit f (entries m) s
   \<and> Range m (\<lambda>k v tr. (p k v, tr @ [(k, v)])) [] =
       takeWhile (\<lambda>(k, v). p k v) (entries m)
         @ take 1 (dropWhile (\<lambda>(k, v). p k v) (entries m))
   \<and> Range m (\<lambda>k v tr. (True, tr @ [(k, v)])) [] = entries m"
proof -
  have "Range m (\<lambda>k v tr. (True, tr @ [(k, v)])) [] = entries m"
    by (simp add: Range_visit visit_recording_all)
  then show ?thesis by (simp add: Range_visit visit_recording)
qed

theorem Range_in_order_witness:
  "Range three (\<lambda>k v tr. (True, tr @ [(k, v)])) []
     = [(''b'', Some 2), (''a'', Some 1), (''d'', Some 4)]
   \<and> Range three (\<lambda>k v tr. (k \<noteq> ''a'', tr @ [(k, v)])) []
     = [(''b'', Some 2), (''a'', Some 1)]"
proof -
  have e: "entries three = [(''b'', Some 2), (''a'', Some 1), (''d'', Some 4)]"
    by (simp add: entries_def three_def)
  show ?thesis
    using Range_in_order [where m = three and p = "\<lambda>k v. k \<noteq> ''a''"
        and f = "\<lambda>k v u. (True, u)" and s = "()"]
    by (simp add: e)
qed

section \<open>Length\<close>

lemma keys_list_update:
  "i < length xs \<Longrightarrow> set (chain_keys c') = insert k (set (chain_keys (xs ! i))) \<Longrightarrow>
     set (concat (map chain_keys (xs[i := c']))) = insert k (set (concat (map chain_keys xs)))"
proof (induction xs arbitrary: i)
  case Nil
  then show ?case by simp
next
  case (Cons x xs)
  show ?case
  proof (cases i)
    case 0
    with Cons.prems show ?thesis by auto
  next
    case (Suc j)
    with Cons.prems Cons.IH [of j] show ?thesis by auto
  qed
qed

lemma nth_keys_subset:
  assumes "i < length (pairs m)"
  shows "set (chain_keys (pairs m ! i)) \<subseteq> set (map_keys m)"
proof -
  from assms have "pairs m ! i \<in> set (pairs m)" by simp
  then show ?thesis unfolding map_keys_def by auto
qed

lemma map_keys_Store_at:
  "i < length (pairs m) \<Longrightarrow> set (map_keys (Store_at m i k v)) = insert k (set (map_keys m))"
  unfolding map_keys_def pairs_Store_at
  by (rule keys_list_update) (auto simp: Store_loop_keys)

lemma length_m_Store_at_fresh:
  "i < length (pairs m) \<Longrightarrow> k \<notin> set (map_keys m) \<Longrightarrow>
     length_m (Store_at m i k v) = length_m m + 1"
  using nth_keys_subset [of i m] by (auto simp: length_m_Store_at)

lemma run_Store_fresh:
  assumes st: "\<And>m' k v. length (pairs m') = n \<Longrightarrow> st (k, v) m' = Inr (Store_at m' (sl k) k v)"
    and sl: "\<And>k. sl k < n"
  shows "length (pairs m) = n \<Longrightarrow> distinct (map fst kvs) \<Longrightarrow>
     set (map fst kvs) \<inter> set (map_keys m) = {} \<Longrightarrow>
     \<exists>m'. run st kvs m = Inr m' \<and> length (pairs m') = n
        \<and> length_m m' = length_m m + of_nat (length kvs)
        \<and> set (map_keys m') = set (map_keys m) \<union> set (map fst kvs)"
proof (induction kvs arbitrary: m)
  case Nil
  then show ?case by simp
next
  case (Cons kv kvs)
  obtain k v where kv: "kv = (k, v)" by (cases kv)
  let ?m1 = "Store_at m (sl k) k v"
  have i: "sl k < length (pairs m)" using sl Cons.prems(1) by simp
  have len: "length (pairs ?m1) = n" using Cons.prems(1) by (simp add: pairs_Store_at)
  have fresh: "k \<notin> set (map_keys m)" using Cons.prems(3) kv by auto
  have keys1: "set (map_keys ?m1) = insert k (set (map_keys m))"
    using i by (rule map_keys_Store_at)
  have cnt1: "length_m ?m1 = length_m m + 1"
    using i fresh by (rule length_m_Store_at_fresh)
  have d: "distinct (map fst kvs)" using Cons.prems(2) by simp
  have disj: "set (map fst kvs) \<inter> set (map_keys ?m1) = {}"
    using Cons.prems(2,3) kv keys1 by auto
  from Cons.IH [OF len d disj] obtain m' where
    r: "run st kvs ?m1 = Inr m'" and l: "length (pairs m') = n"
    and c: "length_m m' = length_m ?m1 + of_nat (length kvs)"
    and ks: "set (map_keys m') = set (map_keys ?m1) \<union> set (map fst kvs)" by blast
  have step: "st kv m = Inr ?m1" using st [OF Cons.prems(1)] kv by simp
  have "run st (kv # kvs) m = Inr m'" using step r by simp
  moreover have "length_m m' = length_m m + of_nat (length (kv # kvs))"
    using c cnt1 by simp
  moreover have "set (map_keys m') = set (map_keys m) \<union> set (map fst (kv # kvs))"
    using ks keys1 kv by auto
  ultimately show ?case using l by blast
qed

lemma sint_of_nat_small: "n < 2 ^ 63 \<Longrightarrow> sint (of_nat n :: 64 word) = int n"
proof -
  assume n: "n < 2 ^ 63"
  then have "n < 2 ^ 64" by (rule less_trans) simp
  then have t: "take_bit 64 n = n" by (simp add: take_bit_nat_eq_self)
  have "sint (of_nat n :: 64 word) = signed_take_bit 63 (int n)"
    by (simp add: sint_uint signed_take_bit_take_bit unsigned_of_nat take_bit_of_nat t)
  also have "\<dots> = int n"
    using n by (simp add: signed_take_bit_int_eq_self)
  finally show ?thesis .
qed


lemma New_Inr:
  "0 \<le> n \<Longrightarrow> New n = Inr \<lparr>pairs = replicate (nat n) nil, length_m = 0\<rparr>"
  by (simp add: New_def)

lemma map_keys_fresh: "set (map_keys \<lparr>pairs = replicate j nil, length_m = c\<rparr>) = {}"
  by (simp add: map_keys_def)

lemma Length_after_fresh_Stores:
  fixes m0 :: "'v lfm_map"
  assumes st: "\<And>m' k v. length (pairs m') = length (pairs m0) \<Longrightarrow>
                 st (k, v) m' = Inr (Store_at m' (slot_of m0 k) k v)"
    and n: "1 \<le> length (pairs m0)"
    and e: "set (map_keys m0) = {}" and z: "length_m m0 = 0"
    and d: "distinct (map fst kvs)" and small: "length kvs < 2 ^ 63"
  shows "\<exists>m. run st kvs m0 = Inr m \<and> Length m = int (length kvs)"
proof -
  have "\<exists>m'. run st kvs m0 = Inr m' \<and> length (pairs m') = length (pairs m0)
        \<and> length_m m' = length_m m0 + of_nat (length kvs)
        \<and> set (map_keys m') = set (map_keys m0) \<union> set (map fst kvs)"
    by (rule run_Store_fresh [where sl = "slot_of m0"])
       (simp_all only: st slot_of_less [OF n] d e Int_empty_right)
  then obtain m where r: "run st kvs m0 = Inr m"
    and c: "length_m m = length_m m0 + of_nat (length kvs)" by blast
  from c z have "Length m = sint (of_nat (length kvs) :: 64 word)"
    by (simp add: Length_def)
  with small have "Length m = int (length kvs)" by (simp only: sint_of_nat_small)
  with r show ?thesis by blast
qed

text \<open>
  C8. From a freshly constructed map, \<^verbatim>\<open>Store\<close> calls on pairwise distinct keys, one
  after the other and with no other call in between, all complete, and \<^verbatim>\<open>Length()\<close>
  then returns the number of calls. The counter is an \<^verbatim>\<open>int64\<close>, so the number of calls
  is taken below \<open>2^63\<close> (more pairs than that do not fit a 64-bit address space).
  The guarded revisions need one shard, \<^verbatim>\<open>map.go\<close> two.
\<close>

theorem Length_after_distinct_Stores:
  assumes d: "distinct (map fst kvs)" and small: "length kvs < 2 ^ 63"
  shows "(1 \<le> n \<longrightarrow>
           (\<exists>m0 m. New n = Inr m0 \<and> run (\<lambda>(k, v) m. Store m k v) kvs m0 = Inr m
                \<and> Length m = int (length kvs)))
       \<and> (2 \<le> n \<longrightarrow>
           (\<exists>m0 m. New n = Inr m0 \<and> run (\<lambda>(k, v) m. mapgo_Store m k v) kvs m0 = Inr m
                \<and> Length m = int (length kvs)))"
proof (intro conjI impI)
  let ?m0 = "\<lparr>pairs = replicate (nat n) nil, length_m = 0\<rparr> :: 'a lfm_map"
  assume n: "1 \<le> n"
  then have new: "New n = Inr ?m0" by (simp add: New_Inr)
  have n1: "1 \<le> length (pairs ?m0)" using n by simp
  have "\<exists>m. run (\<lambda>(k, v) m. Store m k v) kvs ?m0 = Inr m \<and> Length m = int (length kvs)"
    by (rule Length_after_fresh_Stores [OF _ n1 map_keys_fresh _ d small])
       (simp_all only: prod.case Store_slot [OF n1] lfm_map.select_convs)
  with new show "\<exists>m0 m. New n = Inr m0 \<and> run (\<lambda>(k, v) m. Store m k v) kvs m0 = Inr m
                \<and> Length m = int (length kvs)" by blast
next
  let ?m0 = "\<lparr>pairs = replicate (nat n) nil, length_m = 0\<rparr> :: 'a lfm_map"
  assume n: "2 \<le> n"
  then have new: "New n = Inr ?m0" by (simp add: New_Inr)
  have n2: "2 \<le> length (pairs ?m0)" using n by simp
  then have n1: "1 \<le> length (pairs ?m0)" by simp
  have "\<exists>m. run (\<lambda>(k, v) m. mapgo_Store m k v) kvs ?m0 = Inr m \<and> Length m = int (length kvs)"
    by (rule Length_after_fresh_Stores [OF _ n1 map_keys_fresh _ d small])
       (simp_all only: prod.case mapgo_Store_slot [OF n2] lfm_map.select_convs)
  with new show "\<exists>m0 m. New n = Inr m0 \<and> run (\<lambda>(k, v) m. mapgo_Store m k v) kvs m0 = Inr m
                \<and> Length m = int (length kvs)" by blast
qed

theorem Length_after_distinct_Stores_witness:
  "distinct (map fst [(''a'', Some (1::nat)), (''b'', Some 2), (''d'', Some 4)])
   \<and> length [(''a'', Some (1::nat)), (''b'', Some 2), (''d'', Some 4)] < 2 ^ 63
   \<and> (1::int) \<le> 4 \<and> (2::int) \<le> 4
   \<and> New 4 = Inr empty4
   \<and> run (\<lambda>(k, v) m. Store m k v) [(''a'', Some 1), (''b'', Some 2), (''d'', Some 4)] empty4
       = Inr three
   \<and> run (\<lambda>(k, v) m. mapgo_Store m k v) [(''a'', Some 1), (''b'', Some 2), (''d'', Some 4)]
         empty4 = Inr three
   \<and> Length three = 3"
proof -
  let ?kvs = "[(''a'', Some (1::nat)), (''b'', Some 2), (''d'', Some 4)]"
  have d: "distinct (map fst ?kvs)" by simp
  have s: "length ?kvs < 2 ^ 63" by simp
  have new: "New 4 = Inr empty4" by code_simp
  have r: "run (\<lambda>(k, v) m. Store m k v) ?kvs empty4 = Inr three" by code_simp
  have r2: "run (\<lambda>(k, v) m. mapgo_Store m k v) ?kvs empty4 = Inr three" by code_simp
  from Length_after_distinct_Stores [OF d s, of 4] new r
  have "Length three = 3" by auto
  with d s new r r2 show ?thesis by simp
qed

section \<open>The chains hold no key twice\<close>

lemma distinct_keys_insert:
  "distinct ks \<Longrightarrow> distinct (if k \<in> set ks then ks else ks @ [k])"
  by simp

lemma list_all_update:
  "list_all P xs \<Longrightarrow> P c \<Longrightarrow> list_all P (xs[i := c])"
  by (induction xs arbitrary: i) (auto split: nat.splits)

lemma list_all_nth: "list_all P xs \<Longrightarrow> i < length xs \<Longrightarrow> P (xs ! i)"
  by (simp add: list_all_length)

lemma distinct_chains_update:
  assumes "distinct_chains m" and "pairs m' = (pairs m)[i := c]"
    and "i < length (pairs m) \<Longrightarrow> distinct (chain_keys (pairs m ! i)) \<Longrightarrow> distinct (chain_keys c)"
  shows "distinct_chains m'"
proof (cases "i < length (pairs m)")
  case True
  with assms(1) have "distinct (chain_keys (pairs m ! i))"
    unfolding distinct_chains_def by (rule list_all_nth)
  with True assms(3) have "distinct (chain_keys c)" by simp
  with assms(1,2) show ?thesis unfolding distinct_chains_def by (simp add: list_all_update)
next
  case False
  with assms(1,2) show ?thesis by (simp add: distinct_chains_def list_update_beyond not_less)
qed

lemma distinct_chains_Store_at: "distinct_chains m \<Longrightarrow> distinct_chains (Store_at m i k v)"
  by (erule distinct_chains_update [OF _ pairs_Store_at]) (simp add: Store_loop_keys)

lemma pairs_LoadOrStore_at:
  "pairs (fst (LoadOrStore_at m i k v)) = (pairs m)[i := fst (LoadOrStore_loop (pairs m ! i) k v)]"
  by (simp add: LoadOrStore_at_def case_prod_beta)

lemma pairs_StoreNotExists_at:
  "pairs (fst (StoreNotExists_at m i k v)) =
     (pairs m)[i := fst (StoreNotExists_loop (pairs m ! i) k v)]"
  by (simp add: StoreNotExists_at_def case_prod_beta)

lemma distinct_chains_LoadOrStore_at:
  "distinct_chains m \<Longrightarrow> distinct_chains (fst (LoadOrStore_at m i k v))"
  by (erule distinct_chains_update [OF _ pairs_LoadOrStore_at]) (simp add: LoadOrStore_loop_keys)

lemma distinct_chains_LoadAndStore_at:
  "distinct_chains m \<Longrightarrow> distinct_chains (fst (LoadAndStore_at m i k v))"
  by (erule distinct_chains_update [OF _ pairs_LoadAndStore_at]) (simp add: LoadAndStore_loop_keys)

lemma distinct_chains_StoreNotExists_at:
  "distinct_chains m \<Longrightarrow> distinct_chains (fst (StoreNotExists_at m i k v))"
  by (erule distinct_chains_update [OF _ pairs_StoreNotExists_at])
     (simp add: StoreNotExists_loop_keys)

lemma distinct_chains_Delete_at:
  assumes "distinct_chains m" and "Delete_at m i k = Inr (m', b)"
  shows "distinct_chains m'"
proof (cases "pairs m ! i")
  case nil
  with assms show ?thesis by (simp add: Delete_at_def)
next
  case (keyValuePair pk pv nx)
  show ?thesis
  proof (cases "pk = k")
    case True
    with assms(2) keyValuePair have "pairs m' = (pairs m)[i := nx]"
      by (auto simp: Delete_at_def)
    with assms(1) show ?thesis
      by (rule distinct_chains_update) (simp add: keyValuePair)
  next
    case False
    with assms(2) keyValuePair obtain c where
      c: "Delete_loop nx k = Inr c" and p: "pairs m' = (pairs m)[i := keyValuePair pk pv c]"
      by (auto simp: Delete_at_def split: sum.splits)
    from c have "chain_keys c = remove1 k (chain_keys nx)" by (rule Delete_loop_keys)
    then have "distinct (chain_keys (pairs m ! i)) \<Longrightarrow> distinct (chain_keys (keyValuePair pk pv c))"
      using notin_set_remove1 [of pk "chain_keys nx" k] by (simp add: keyValuePair)
    with assms(1) p show ?thesis by (rule distinct_chains_update)
  qed
qed

lemma distinct_chains_mapgo_Delete_at:
  assumes "distinct_chains m" and "mapgo_Delete_at m i k = Inr (m', b)"
  shows "distinct_chains m'"
proof (cases "pairs m ! i")
  case nil
  with assms show ?thesis by (simp add: mapgo_Delete_at_def)
next
  case (keyValuePair pk pv nx)
  show ?thesis
  proof (cases "pk = k")
    case True
    with assms(2) keyValuePair have "pairs m' = (pairs m)[i := nx]"
      by (auto simp: mapgo_Delete_at_def split: Value.splits)
    with assms(1) show ?thesis
      by (rule distinct_chains_update) (simp add: keyValuePair)
  next
    case False
    with assms(2) keyValuePair have "m' = m"
      by (auto simp: mapgo_Delete_at_def split: sum.splits)
    with assms(1) show ?thesis by simp
  qed
qed

lemma distinct_chains_apply_op:
  assumes "distinct_chains m" and "apply_op x m = Inr m'"
  shows "distinct_chains m'"
proof (cases x)
  case (OpStore k v)
  with assms show ?thesis
    by (auto simp: Store_def distinct_chains_Store_at split: sum.splits)
next
  case (OpLoadOrStore k v)
  with assms(2) obtain i where "m' = fst (LoadOrStore_at m i k v)"
    by (auto simp: LoadOrStore_def split: sum.splits)
  with assms(1) show ?thesis by (simp add: distinct_chains_LoadOrStore_at)
next
  case (OpLoadAndStore k v)
  with assms(2) obtain i where "m' = fst (LoadAndStore_at m i k v)"
    by (auto simp: LoadAndStore_def split: sum.splits)
  with assms(1) show ?thesis by (simp add: distinct_chains_LoadAndStore_at)
next
  case (OpStoreNotExists k v)
  with assms(2) obtain i where "m' = fst (StoreNotExists_at m i k v)"
    by (auto simp: StoreNotExists_def split: sum.splits)
  with assms(1) show ?thesis by (simp add: distinct_chains_StoreNotExists_at)
next
  case (OpDelete k)
  with assms(2) obtain i b where "Delete_at m i k = Inr (m', b)"
    by (cases "Delete m k") (auto simp: Delete_def split: sum.splits)
  with assms(1) show ?thesis by (rule distinct_chains_Delete_at)
qed

lemma distinct_chains_mapgo_apply_op:
  assumes "distinct_chains m" and "mapgo_apply_op x m = Inr m'"
  shows "distinct_chains m'"
proof (cases x)
  case (MgStore k v)
  with assms show ?thesis
    by (auto simp: mapgo_Store_def distinct_chains_Store_at split: sum.splits)
next
  case (MgLoadOrStore k v)
  with assms(2) obtain i where "m' = fst (LoadOrStore_at m i k v)"
    by (auto simp: mapgo_LoadOrStore_def split: sum.splits)
  with assms(1) show ?thesis by (simp add: distinct_chains_LoadOrStore_at)
next
  case (MgDelete k)
  with assms(2) obtain i b where "mapgo_Delete_at m i k = Inr (m', b)"
    by (cases "mapgo_Delete m k") (auto simp: mapgo_Delete_def split: sum.splits)
  with assms(1) show ?thesis by (rule distinct_chains_mapgo_Delete_at)
qed

lemma run_invariant:
  assumes step: "\<And>x m m'. P m \<Longrightarrow> st x m = Inr m' \<Longrightarrow> P m'"
  shows "P m \<Longrightarrow> run st xs m = Inr m' \<Longrightarrow> P m'"
proof (induction xs arbitrary: m)
  case Nil
  then show ?case by simp
next
  case (Cons x xs)
  from Cons.prems(2) obtain m1 where s: "st x m = Inr m1" and r: "run st xs m1 = Inr m'"
    by (auto split: sum.splits)
  from step [OF Cons.prems(1) s] have "P m1" .
  from Cons.IH [OF this r] show ?case .
qed

lemma distinct_chains_New: "New n = Inr m \<Longrightarrow> distinct_chains m"
  by (auto simp: New_def distinct_chains_def list_all_length split: if_splits)

text \<open>
  C10. No chain of a freshly constructed map holds a key twice, and every operation that
  completes on a map with this property leaves a map with it: \<^verbatim>\<open>Store\<close>,
  \<^verbatim>\<open>LoadOrStore\<close>, \<^verbatim>\<open>LoadAndStore\<close>, \<^verbatim>\<open>StoreNotExists\<close> and \<^verbatim>\<open>Delete\<close> of the
  later revisions, and \<^verbatim>\<open>Store\<close>, \<^verbatim>\<open>LoadOrStore\<close> and \<^verbatim>\<open>Delete\<close> of \<^verbatim>\<open>map.go\<close>.
  So the property holds after every sequence of such operations from a fresh map.
\<close>

theorem distinct_chains_invariant:
  "(New n = Inr m0 \<longrightarrow> distinct_chains m0)
   \<and> (distinct_chains m \<and> apply_op x m = Inr m' \<longrightarrow> distinct_chains m')
   \<and> (New n = Inr m0 \<and> run apply_op xs m0 = Inr m1 \<longrightarrow> distinct_chains m1)
   \<and> (distinct_chains m \<and> mapgo_apply_op y m = Inr m' \<longrightarrow> distinct_chains m')
   \<and> (New n = Inr m0 \<and> run mapgo_apply_op ys m0 = Inr m2 \<longrightarrow> distinct_chains m2)"
proof (intro conjI impI)
  show "distinct_chains m0" if "New n = Inr m0"
    using that by (rule distinct_chains_New)
  show "distinct_chains m'" if "distinct_chains m \<and> apply_op x m = Inr m'"
    using that distinct_chains_apply_op by blast
  show "distinct_chains m'" if "distinct_chains m \<and> mapgo_apply_op y m = Inr m'"
    using that distinct_chains_mapgo_apply_op by blast
  show "distinct_chains m1" if a: "New n = Inr m0 \<and> run apply_op xs m0 = Inr m1"
  proof -
    from a have "New n = Inr m0" by simp
    then have "distinct_chains m0" by (rule distinct_chains_New)
    moreover from a have "run apply_op xs m0 = Inr m1" by simp
    ultimately show ?thesis
      by (rule run_invariant [where P = distinct_chains and st = apply_op, rotated])
         (rule distinct_chains_apply_op)
  qed
  show "distinct_chains m2" if a: "New n = Inr m0 \<and> run mapgo_apply_op ys m0 = Inr m2"
  proof -
    from a have "New n = Inr m0" by simp
    then have "distinct_chains m0" by (rule distinct_chains_New)
    moreover from a have "run mapgo_apply_op ys m0 = Inr m2" by simp
    ultimately show ?thesis
      by (rule run_invariant [where P = distinct_chains and st = mapgo_apply_op, rotated])
         (rule distinct_chains_mapgo_apply_op)
  qed
qed

theorem distinct_chains_invariant_witness:
  "New 4 = Inr empty4
   \<and> distinct_chains empty4
   \<and> distinct_chains three
   \<and> apply_op (OpDelete ''a'') three = Inr after_delete
   \<and> distinct_chains after_delete
   \<and> run apply_op
        [OpStore ''a'' (Some 1), OpStore ''d'' (Some 4), OpLoadOrStore ''a'' (Some 9),
         OpLoadAndStore ''g'' (Some 7), OpStoreNotExists ''d'' (Some 3), OpDelete ''d'',
         OpStore ''b'' (Some 2)] empty4 = Inr after_ops
   \<and> distinct_chains after_ops
   \<and> mapgo_apply_op (MgDelete ''a'') three = Inr after_delete
   \<and> run mapgo_apply_op
        [MgStore ''a'' (Some 1), MgStore ''d'' (Some 4), MgLoadOrStore ''g'' (Some 7),
         MgDelete ''a'', MgDelete ''z''] empty4 = Inr after_mapgo_ops
   \<and> distinct_chains after_mapgo_ops"
proof -
  let ?xs = "[OpStore ''a'' (Some 1), OpStore ''d'' (Some 4), OpLoadOrStore ''a'' (Some 9),
         OpLoadAndStore ''g'' (Some 7), OpStoreNotExists ''d'' (Some 3), OpDelete ''d'',
         OpStore ''b'' (Some 2)]"
  let ?ys = "[MgStore ''a'' (Some 1), MgStore ''d'' (Some 4), MgLoadOrStore ''g'' (Some 7),
         MgDelete ''a'', MgDelete ''z'']"
  have new: "New 4 = Inr empty4" by code_simp
  have t: "distinct_chains three" by code_simp
  have x: "apply_op (OpDelete ''a'') three = Inr after_delete" by code_simp
  have y: "mapgo_apply_op (MgDelete ''a'') three = Inr after_delete" by code_simp
  have xs: "run apply_op ?xs empty4 = Inr after_ops" by code_simp
  have ys: "run mapgo_apply_op ?ys empty4 = Inr after_mapgo_ops" by code_simp
  from distinct_chains_invariant [where n = 4 and ?m0.0 = empty4 and m = three
      and x = "OpDelete ''a''" and m' = after_delete and xs = ?xs and ?m1.0 = after_ops
      and y = "MgDelete ''a''" and ys = ?ys and ?m2.0 = after_mapgo_ops]
    new t x y xs ys
  show ?thesis by simp
qed

section \<open>Delete, and one shard\<close>

lemma Delete_slot:
  "1 \<le> length (pairs m) \<Longrightarrow> length (pairs m') = length (pairs m) \<Longrightarrow>
     Delete m' k = Delete_at m' (slot_of m k) k"
  using Delete_eq [of m' k] slot_of_cong [of m' m k] by simp

lemma Delete_loop_removes:
  "k \<in> set (chain_keys c) \<Longrightarrow> distinct (chain_keys c) \<Longrightarrow>
     \<exists>c'. Delete_loop c k = Inr c' \<and> k \<notin> set (chain_keys c')"
  by (induction c) auto

text \<open>The later revisions on a key that is present, in a chain with no key twice.\<close>

lemma Delete_at_present:
  assumes i: "i < length (pairs m)" and d: "distinct (chain_keys (pairs m ! i))"
    and k: "k \<in> set (chain_keys (pairs m ! i))"
  shows "\<exists>m'. Delete_at m i k = Inr (m', True) \<and> length_m m' = length_m m - 1
     \<and> length (pairs m') = length (pairs m)
     \<and> k \<notin> set (chain_keys (pairs m' ! i))"
proof (cases "pairs m ! i")
  case nil
  with k show ?thesis by simp
next
  case (keyValuePair pk pv nx)
  show ?thesis
  proof (cases "pk = k")
    case True
    with keyValuePair d i show ?thesis by (simp add: Delete_at_def)
  next
    case False
    with keyValuePair k d have "k \<in> set (chain_keys nx)" "distinct (chain_keys nx)" by simp_all
    from Delete_loop_removes [OF this] obtain c' where
      "Delete_loop nx k = Inr c'" "k \<notin> set (chain_keys c')" by blast
    with keyValuePair False i show ?thesis by (simp add: Delete_at_def)
  qed
qed

lemma Delete_present:
  assumes d: "distinct_chains m" and p: "Load m k = Inr (v, True)"
  shows "\<exists>m'. Delete m k = Inr (m', True) \<and> length_m m' = length_m m - 1
     \<and> Load m' k = Inr (None, False)"
proof -
  let ?i = "slot_of m k"
  from p have n: "1 \<le> length (pairs m)" by (rule Load_Inr_shards)
  then have i: "?i < length (pairs m)" by (rule slot_of_less)
  from d i have dc: "distinct (chain_keys (pairs m ! ?i))"
    unfolding distinct_chains_def by (rule list_all_nth)
  from p have "snd (Load_at m ?i k)" by (simp add: Load_eq [OF n])
  then have k: "k \<in> set (chain_keys (pairs m ! ?i))" by (simp add: Load_at_found)
  from Delete_at_present [OF i dc k] obtain m' where
    1: "Delete_at m ?i k = Inr (m', True)" and 2: "length_m m' = length_m m - 1"
    and 3: "length (pairs m') = length (pairs m)"
    and 4: "k \<notin> set (chain_keys (pairs m' ! ?i))" by blast
  from 4 have "Load_at m' ?i k = (None, False)"
    by (simp add: Load_at_def Load_loop_absent)
  then have "Load m' k = Inr (None, False)" by (simp add: Load_slot [OF n 3])
  with 1 2 show ?thesis by (auto simp: Delete_eq [OF n])
qed

text \<open>The later revisions on a key that is absent.\<close>

lemma Delete_at_absent:
  assumes "k \<notin> set (chain_keys (pairs m ! i))"
  shows "Delete_at m i k =
     (if pairs m ! i = nil then Inr (m, False) else Inl NilDereference)"
proof (cases "pairs m ! i")
  case nil
  then show ?thesis by (simp add: Delete_at_def)
next
  case (keyValuePair pk pv nx)
  with assms have "pk \<noteq> k" "k \<notin> set (chain_keys nx)" by auto
  with keyValuePair show ?thesis by (simp add: Delete_at_def Delete_loop_absent)
qed

lemma Delete_absent:
  assumes "Load m k = Inr (x, False)"
  shows "Delete m k =
     (if pairs m ! slot_of m k = nil then Inr (m, False) else Inl NilDereference)"
proof -
  from assms have n: "1 \<le> length (pairs m)" by (rule Load_Inr_shards)
  from assms have "\<not> snd (Load_at m (slot_of m k) k)" by (simp add: Load_eq [OF n])
  then have "k \<notin> set (chain_keys (pairs m ! slot_of m k))" by (simp add: Load_at_found)
  then show ?thesis by (simp add: Delete_eq [OF n] Delete_at_absent)
qed

text \<open>\<^verbatim>\<open>map.go\<close> on a key that is absent: nothing changes.\<close>

lemma mapgo_Delete_at_absent:
  assumes "k \<notin> set (chain_keys (pairs m ! i))"
  shows "mapgo_Delete_at m i k = Inr (m, False)"
proof (cases "pairs m ! i")
  case nil
  then show ?thesis by (simp add: mapgo_Delete_at_def)
next
  case (keyValuePair pk pv nx)
  with assms have "pk \<noteq> k" "k \<notin> set (chain_keys nx)" by auto
  with keyValuePair show ?thesis by (simp add: mapgo_Delete_at_def mapgo_Delete_loop_absent)
qed

lemma mapgo_Delete_absent:
  assumes "mapgo_Load m k = Inr (x, False)"
  shows "mapgo_Delete m k = Inr (m, False)"
proof -
  from assms have n: "2 \<le> length (pairs m)" by (rule mapgo_Load_Inr_shards)
  from assms have "\<not> snd (Load_at m (slot_of m k) k)" by (simp add: mapgo_Load_eq [OF n])
  then have "k \<notin> set (chain_keys (pairs m ! slot_of m k))" by (simp add: Load_at_found)
  then show ?thesis by (simp add: mapgo_Delete_eq [OF n] mapgo_Delete_at_absent)
qed

text \<open>\<^verbatim>\<open>map.go\<close> on a key that is present: only a head with a successor is unlinked.\<close>

lemma mapgo_Delete_present:
  assumes "mapgo_Load m k = Inr (v, True)"
  shows "mapgo_Delete m k =
     (case pairs m ! slot_of m k of
        nil \<Rightarrow> Inr (m, False)
      | keyValuePair pk pv nx \<Rightarrow>
          if pk \<noteq> k then Inl CompareAndSwapInconsistentType
          else if nx = nil then Inl CompareAndSwapNil
          else Inr (unlinked m (slot_of m k) nx, True))"
proof -
  let ?i = "slot_of m k"
  from assms have n: "2 \<le> length (pairs m)" by (rule mapgo_Load_Inr_shards)
  from assms have "snd (Load_at m ?i k)" by (simp add: mapgo_Load_eq [OF n])
  then have k: "k \<in> set (chain_keys (pairs m ! ?i))" by (simp add: Load_at_found)
  show ?thesis
  proof (cases "pairs m ! ?i")
    case nil
    with k show ?thesis by simp
  next
    case (keyValuePair pk pv nx)
    show ?thesis
    proof (cases "pk = k")
      case True
      with keyValuePair show ?thesis
        by (cases nx) (simp_all add: mapgo_Delete_eq [OF n] mapgo_Delete_at_def)
    next
      case False
      with keyValuePair k have "k \<in> set (chain_keys nx)" by simp
      with keyValuePair False show ?thesis
        by (simp add: mapgo_Delete_eq [OF n] mapgo_Delete_at_def mapgo_Delete_loop_present)
    qed
  qed
qed

text \<open>
  C3. The claim: \<^verbatim>\<open>Delete(k)\<close> on a present key returns \<^verbatim>\<open>true\<close>, takes one from the
  counter, and \<^verbatim>\<open>Load(k)\<close> then finds nothing, whether the pair is the head of its chain,
  inside it, or alone in it. The later revisions do so (\<open>Delete_present\<close>).
  \<^verbatim>\<open>map.go\<close> does not: after \<^verbatim>\<open>New(4)\<close> and \<^verbatim>\<open>Store("a", 1)\<close> the pair is alone in its
  chain and \<^verbatim>\<open>Delete("a")\<close> panics, swapping \<^verbatim>\<open>nil\<close> into an \<^verbatim>\<open>atomic.Value\<close>; after
  \<^verbatim>\<open>Store\<close> of \<^verbatim>\<open>"a"\<close>, \<^verbatim>\<open>"b"\<close> and \<^verbatim>\<open>"d"\<close> the pair of \<^verbatim>\<open>"d"\<close> follows that of \<^verbatim>\<open>"a"\<close>
  and \<^verbatim>\<open>Delete("d")\<close> panics, swapping a \<^verbatim>\<open>*atomic.Value\<close> into a cell that holds a
  \<^verbatim>\<open>*keyValuePair\<close>.
\<close>

theorem mapgo_Delete_present_panics:
  "New 4 = Inr empty4
   \<and> mapgo_Store empty4 ''a'' (Some 1) = Inr one_a
   \<and> mapgo_Load one_a ''a'' = Inr (Some 1, True)
   \<and> mapgo_Delete one_a ''a'' = Inl CompareAndSwapNil
   \<and> run (\<lambda>(k, v) m. mapgo_Store m k v) [(''a'', Some 1), (''b'', Some 2), (''d'', Some 4)]
        empty4 = Inr three
   \<and> mapgo_Load three ''d'' = Inr (Some 4, True)
   \<and> mapgo_Delete three ''d'' = Inl CompareAndSwapInconsistentType"
  by code_simp

text \<open>
  C4. The claim: \<^verbatim>\<open>Delete(k)\<close> on an absent key returns \<^verbatim>\<open>false\<close> and changes nothing.
  \<^verbatim>\<open>map.go\<close> does so (\<open>mapgo_Delete_absent\<close>). The later revisions do so only when the
  chain of the key's shard is empty (\<open>Delete_absent\<close>): after \<^verbatim>\<open>New(4)\<close> and
  \<^verbatim>\<open>Store("a", 1)\<close>, the key \<^verbatim>\<open>"d"\<close> is absent, it is routed to the shard of \<^verbatim>\<open>"a"\<close>, and
  \<^verbatim>\<open>Delete("d")\<close> reads \<^verbatim>\<open>np.key\<close> through a \<^verbatim>\<open>nil\<close> pointer at the end of the chain.
\<close>

theorem Delete_absent_panics:
  "New 4 = Inr empty4
   \<and> Store empty4 ''a'' (Some 1) = Inr one_a
   \<and> Load one_a ''d'' = Inr (None, False)
   \<and> Delete one_a ''d'' = Inl NilDereference"
  by code_simp

text \<open>
  C2. The claim: with any shard count from 1 on, \<^verbatim>\<open>Store\<close>, \<^verbatim>\<open>Load\<close>, \<^verbatim>\<open>LoadOrStore\<close>
  and \<^verbatim>\<open>Delete\<close> complete on every key. The later revisions return position 0 for one
  shard, and their \<^verbatim>\<open>Store\<close>, \<^verbatim>\<open>Load\<close> and \<^verbatim>\<open>LoadOrStore\<close> complete (\<open>Store_eq\<close>,
  \<open>Load_eq\<close>, \<open>LoadOrStore_eq\<close>). In \<^verbatim>\<open>map.go\<close> the router takes the remainder by
  \<^verbatim>\<open>len(m.pairs) - 1\<close>, which is 0 for one shard: after \<^verbatim>\<open>New(1)\<close> every operation panics
  with a division by zero.
\<close>

theorem mapgo_one_shard_panics:
  "New 1 = Inr one_shard
   \<and> mapgo_index one_shard ''a'' = Inl DivideByZero
   \<and> mapgo_Store one_shard ''a'' (Some 1) = Inl DivideByZero
   \<and> mapgo_Load one_shard ''a'' = Inl DivideByZero
   \<and> mapgo_LoadOrStore one_shard ''a'' (Some 1) = Inl DivideByZero
   \<and> mapgo_Delete one_shard ''a'' = Inl DivideByZero
   \<and> Store one_shard ''a'' (Some 1)
       = Inr \<lparr>pairs = [keyValuePair ''a'' (Some 1) nil], length_m = 1\<rparr>"
  by code_simp

section \<open>The last shard\<close>

lemma slot_of_not_last: "1 < length (pairs m) \<Longrightarrow> slot_of m k < length (pairs m) - 1"
proof -
  assume many: "1 < length (pairs m)"
  then have pos: "0 < int (length (pairs m)) - 1" by simp
  have "hash_int k mod (int (length (pairs m)) - 1) < int (length (pairs m)) - 1"
    using pos by (rule pos_mod_bound)
  moreover have "0 \<le> hash_int k mod (int (length (pairs m)) - 1)"
    using pos by (rule pos_mod_sign)
  ultimately have "nat (hash_int k mod (int (length (pairs m)) - 1)) < length (pairs m) - 1"
    by linarith
  then show ?thesis using many by (simp add: slot_of_def)
qed

lemma last_update_other:
  "i < length xs - 1 \<Longrightarrow> last (xs[i := c]) = last xs"
  by (cases "xs = []") (simp_all add: last_conv_nth)

lemma Delete_at_pairs:
  "Delete_at m i k = Inr (m', b) \<Longrightarrow> \<exists>c. pairs m' = (pairs m)[i := c]"
proof (cases "pairs m ! i")
  case nil
  assume "Delete_at m i k = Inr (m', b)"
  with nil have "m' = m" by (simp add: Delete_at_def)
  then have "pairs m' = (pairs m)[i := pairs m ! i]" by simp
  then show ?thesis ..
next
  case (keyValuePair pk pv nx)
  assume "Delete_at m i k = Inr (m', b)"
  with keyValuePair show ?thesis
    by (auto simp: Delete_at_def split: if_splits sum.splits)
qed

lemma mapgo_Delete_at_pairs:
  "mapgo_Delete_at m i k = Inr (m', b) \<Longrightarrow> \<exists>c. pairs m' = (pairs m)[i := c]"
proof (cases "pairs m ! i")
  case nil
  assume "mapgo_Delete_at m i k = Inr (m', b)"
  with nil have "m' = m" by (simp add: mapgo_Delete_at_def)
  then have "pairs m' = (pairs m)[i := pairs m ! i]" by simp
  then show ?thesis ..
next
  case (keyValuePair pk pv nx)
  assume a: "mapgo_Delete_at m i k = Inr (m', b)"
  show ?thesis
  proof (cases "pk = k")
    case True
    with a keyValuePair show ?thesis
      by (auto simp: mapgo_Delete_at_def split: Value.splits)
  next
    case False
    with a keyValuePair have "m' = m"
      by (auto simp: mapgo_Delete_at_def split: sum.splits)
    then have "pairs m' = (pairs m)[i := pairs m ! i]" by simp
    then show ?thesis ..
  qed
qed

lemma apply_op_pairs:
  assumes n: "1 \<le> length (pairs m)" and a: "apply_op x m = Inr m'"
  shows "\<exists>k c. pairs m' = (pairs m)[slot_of m k := c]"
proof (cases x)
  case (OpStore k v)
  with a n have "pairs m' = (pairs m)[slot_of m k := fst (Store_loop (pairs m ! slot_of m k) k v)]"
    by (auto simp: Store_eq pairs_Store_at)
  then show ?thesis by blast
next
  case (OpLoadOrStore k v)
  with a n have "m' = fst (LoadOrStore_at m (slot_of m k) k v)"
    by (auto simp: LoadOrStore_eq)
  then show ?thesis using pairs_LoadOrStore_at by blast
next
  case (OpLoadAndStore k v)
  with a n have "m' = fst (LoadAndStore_at m (slot_of m k) k v)"
    by (auto simp: LoadAndStore_eq)
  then show ?thesis using pairs_LoadAndStore_at by blast
next
  case (OpStoreNotExists k v)
  with a n have "m' = fst (StoreNotExists_at m (slot_of m k) k v)"
    by (auto simp: StoreNotExists_eq)
  then show ?thesis using pairs_StoreNotExists_at by blast
next
  case (OpDelete k)
  with a n obtain b where "Delete_at m (slot_of m k) k = Inr (m', b)"
    by (cases "Delete m k") (auto simp: Delete_eq)
  then show ?thesis using Delete_at_pairs by blast
qed

lemma mapgo_apply_op_pairs:
  assumes n: "2 \<le> length (pairs m)" and a: "mapgo_apply_op y m = Inr m'"
  shows "\<exists>k c. pairs m' = (pairs m)[slot_of m k := c]"
proof (cases y)
  case (MgStore k v)
  with a n have "pairs m' = (pairs m)[slot_of m k := fst (Store_loop (pairs m ! slot_of m k) k v)]"
    by (auto simp: mapgo_Store_eq pairs_Store_at)
  then show ?thesis by blast
next
  case (MgLoadOrStore k v)
  with a n have "m' = fst (LoadOrStore_at m (slot_of m k) k v)"
    by (auto simp: mapgo_LoadOrStore_eq)
  then show ?thesis using pairs_LoadOrStore_at by blast
next
  case (MgDelete k)
  with a n obtain b where "mapgo_Delete_at m (slot_of m k) k = Inr (m', b)"
    by (cases "mapgo_Delete m k") (auto simp: mapgo_Delete_eq)
  then show ?thesis using mapgo_Delete_at_pairs by blast
qed

lemma apply_op_last:
  assumes "1 < length (pairs m)" and "apply_op x m = Inr m'"
  shows "last (pairs m') = last (pairs m) \<and> length (pairs m') = length (pairs m)"
proof -
  from assms have "1 \<le> length (pairs m)" by simp
  from apply_op_pairs [OF this assms(2)] obtain k c where
    "pairs m' = (pairs m)[slot_of m k := c]" by blast
  with slot_of_not_last [OF assms(1), of k] show ?thesis
    by (simp add: last_update_other)
qed

lemma mapgo_apply_op_last:
  assumes "1 < length (pairs m)" and "mapgo_apply_op y m = Inr m'"
  shows "last (pairs m') = last (pairs m) \<and> length (pairs m') = length (pairs m)"
proof -
  from assms have "2 \<le> length (pairs m)" by simp
  from mapgo_apply_op_pairs [OF this assms(2)] obtain k c where
    "pairs m' = (pairs m)[slot_of m k := c]" by blast
  with slot_of_not_last [OF assms(1), of k] show ?thesis
    by (simp add: last_update_other)
qed

lemma run_last:
  assumes step: "\<And>x m m'. 1 < length (pairs m) \<Longrightarrow> st x m = Inr m' \<Longrightarrow>
      last (pairs m') = last (pairs m) \<and> length (pairs m') = length (pairs m)"
  shows "1 < length (pairs m) \<Longrightarrow> run st xs m = Inr m' \<Longrightarrow>
      last (pairs m') = last (pairs m) \<and> length (pairs m') = length (pairs m)"
proof (induction xs arbitrary: m)
  case Nil
  then show ?case by simp
next
  case (Cons x xs)
  from Cons.prems(2) obtain m1 where s: "st x m = Inr m1" and r: "run st xs m1 = Inr m'"
    by (auto split: sum.splits)
  from step [OF Cons.prems(1) s]
  have 1: "last (pairs m1) = last (pairs m)" "length (pairs m1) = length (pairs m)" by simp_all
  with Cons.prems(1) have "1 < length (pairs m1)" by simp
  from Cons.IH [OF this r] 1 show ?case by simp
qed

text \<open>
  C1. With more than one shard, the router of every revision returns a position from 0
  to \<open>N - 2\<close>: it reduces the hash modulo \<open>N - 1\<close>, so it never returns the last
  position \<open>N - 1\<close>, and the position an operation works on is never the last one.
  No sequence of operations changes the last shard slot.
\<close>

theorem index_never_last:
  assumes "1 < length (pairs m)"
  shows "(\<exists>i. index m k = Inr i \<and> 0 \<le> i \<and> i < int (length (pairs m)) - 1
              \<and> i = hash_int k mod (int (length (pairs m)) - 1)
              \<and> shard m (index m k) = Inr (nat i))
       \<and> (\<exists>i. mapgo_index m k = Inr i \<and> 0 \<le> i \<and> i < int (length (pairs m)) - 1
              \<and> i = hash_int k mod (int (length (pairs m)) - 1)
              \<and> shard m (mapgo_index m k) = Inr (nat i))
       \<and> (run apply_op xs m = Inr m' \<longrightarrow> last (pairs m') = last (pairs m))
       \<and> (run mapgo_apply_op ys m = Inr m'' \<longrightarrow> last (pairs m'') = last (pairs m))"
proof -
  from assms have pos: "0 < int (length (pairs m)) - 1" by simp
  have lt: "hash_int k mod (int (length (pairs m)) - 1) < int (length (pairs m)) - 1"
    using pos by (rule pos_mod_bound)
  have ge: "0 \<le> hash_int k mod (int (length (pairs m)) - 1)"
    using pos by (rule pos_mod_sign)
  have 1: "last (pairs m') = last (pairs m)" if "run apply_op xs m = Inr m'"
    using run_last [where st = apply_op, OF apply_op_last assms that] by simp
  have 2: "last (pairs m'') = last (pairs m)" if "run mapgo_apply_op ys m = Inr m''"
    using run_last [where st = mapgo_apply_op, OF mapgo_apply_op_last assms that] by simp
  show ?thesis
    using lt ge 1 2 by (simp add: index_many [OF assms] mapgo_index_many [OF assms]
        shard_def in_range_def)
qed

theorem index_never_last_witness:
  "1 < length (pairs empty4)
   \<and> index empty4 ''a'' = Inr 1 \<and> mapgo_index empty4 ''a'' = Inr 1
   \<and> shard empty4 (index empty4 ''a'') = Inr 1
   \<and> shard empty4 (mapgo_index empty4 ''a'') = Inr 1
   \<and> hash_int ''a'' mod (int (length (pairs empty4)) - 1) = 1
   \<and> run apply_op
        [OpStore ''a'' (Some 1), OpStore ''d'' (Some 4), OpLoadOrStore ''a'' (Some 9),
         OpLoadAndStore ''g'' (Some 7), OpStoreNotExists ''d'' (Some 3), OpDelete ''d'',
         OpStore ''b'' (Some 2)] empty4 = Inr after_ops
   \<and> run mapgo_apply_op
        [MgStore ''a'' (Some 1), MgStore ''d'' (Some 4), MgLoadOrStore ''g'' (Some 7),
         MgDelete ''a'', MgDelete ''z''] empty4 = Inr after_mapgo_ops
   \<and> last (pairs after_ops) = last (pairs empty4)
   \<and> last (pairs after_mapgo_ops) = last (pairs empty4)"
proof -
  let ?xs = "[OpStore ''a'' (Some 1), OpStore ''d'' (Some 4), OpLoadOrStore ''a'' (Some 9),
         OpLoadAndStore ''g'' (Some 7), OpStoreNotExists ''d'' (Some 3), OpDelete ''d'',
         OpStore ''b'' (Some 2)]"
  let ?ys = "[MgStore ''a'' (Some 1), MgStore ''d'' (Some 4), MgLoadOrStore ''g'' (Some 7),
         MgDelete ''a'', MgDelete ''z'']"
  have h: "1 < length (pairs empty4)" by (simp add: empty4_def)
  have v: "hash_int ''a'' mod (int (length (pairs empty4)) - 1) = 1"
    by (simp add: empty4_def hash_int_def Sum64_def offset64_def prime64_def)
  have xs: "run apply_op ?xs empty4 = Inr after_ops" by code_simp
  have ys: "run mapgo_apply_op ?ys empty4 = Inr after_mapgo_ops" by code_simp
  show ?thesis
    using h v xs ys
      index_never_last [OF h, where k = "''a''" and xs = ?xs and m' = after_ops
        and ys = ?ys and m'' = after_mapgo_ops]
    by auto
qed

end
